theory Spec2Isabelle
  imports Complex_Main "HOL-Library.Word"
begin

unbundle bit_operations_syntax

section \<open>Values, exceptions and constants of the driver\<close>

text \<open>
  The driver is one Python class, \<open>ADXL345\<close>. A byte of a \<open>bytearray\<close> is an
  \<open>8 word\<close>, a Python \<open>int\<close> is an \<open>int\<close>, a Python number that may be a float
  (a sampling rate, an acquisition time) is a rational. An exception is a value of \<open>error\<close>;
  a call that may raise returns \<open>error + 'a\<close>, with \<open>Inl\<close> for the exception.
\<close>

type_synonym byte = "8 word"

datatype error = KeyError | ValueError | IndexError | ZeroDivisionError | AttributeError
  | MemoryError | OSError

definition bytes_per_3axes :: nat where
  "bytes_per_3axes = 6"

section \<open>Conversions: \<open>xyzbytes2g\<close>\<close>

text \<open>The slice \<open>buf[i:j]\<close> for \<open>0 \<le> i \<le> j\<close>: Python clips it to the buffer.\<close>

definition py_slice :: "'a list \<Rightarrow> nat \<Rightarrow> nat \<Rightarrow> 'a list" where
  "py_slice buf i j = take (j - i) (drop i buf)"

text \<open>One little-endian unsigned 16-bit word, format \<open>H\<close> of \<open>ustruct\<close>.\<close>

definition le_u16 :: "byte \<Rightarrow> byte \<Rightarrow> int" where
  "le_u16 lo hi = uint lo + 256 * uint hi"

text \<open>\<open>ustruct.unpack('<HHH', b)\<close>: fails on a buffer shorter than 6 bytes.\<close>

fun unpack_HHH :: "byte list \<Rightarrow> error + (int \<times> int \<times> int)" where
  "unpack_HHH (x0 # x1 # y0 # y1 # z0 # z1 # rest) =
     Inr (le_u16 x0 x1, le_u16 y0 y1, le_u16 z0 z1)"
| "unpack_HHH b = Inl ValueError"

text \<open>A list comprehension whose element expression may raise: the first exception wins.\<close>

fun collect :: "('e + 'a) list \<Rightarrow> 'e + 'a list" where
  "collect [] = Inr []"
| "collect (r # rs) =
     (case r of
        Inl e \<Rightarrow> Inl e
      | Inr v \<Rightarrow> (case collect rs of Inl e \<Rightarrow> Inl e | Inr vs \<Rightarrow> Inr (v # vs)))"

text \<open>The "negative values rule" of the three last comprehensions.\<close>

definition neg_rule :: "int \<Rightarrow> int" where
  "neg_rule x = (if x \<le> 32767 then x else x - 65536)"

text \<open>
  \<open>xyzbytes2g\<close>: \<open>n_act_meas = int(len(buf) / 6)\<close>; the comprehension runs \<open>i\<close> over
  \<open>range(n_act_meas)\<close>, keeps the \<open>i\<close> with \<open>i % 6 == 0\<close> and unpacks \<open>buf[i:i + 6]\<close>;
  \<open>zip(*...)\<close> assigned to three names raises \<open>ValueError\<close> when the comprehension is
  empty. \<open>gc.collect()\<close> has no effect on the result.
\<close>

definition xyzbytes2g :: "byte list \<Rightarrow> error + (int list \<times> int list \<times> int list)" where
  "xyzbytes2g buf =
     (let n_act_meas = length buf div bytes_per_3axes
      in case collect (map (\<lambda>i. unpack_HHH (py_slice buf i (i + bytes_per_3axes)))
                         (filter (\<lambda>i. i mod bytes_per_3axes = 0) [0..<n_act_meas])) of
           Inl e \<Rightarrow> Inl e
         | Inr [] \<Rightarrow> Inl ValueError
         | Inr (t # ts) \<Rightarrow>
             Inr (map (\<lambda>(x, y, z). neg_rule x) (t # ts),
                  map (\<lambda>(x, y, z). neg_rule y) (t # ts),
                  map (\<lambda>(x, y, z). neg_rule z) (t # ts)))"

section \<open>Frame stripping\<close>

text \<open>
  \<open>remove_first_bytes_from_bytearray_of_many_transactions\<close>:
  \<open>bytearray([b for i, b in enumerate(buf) if i % (bytes_per_3axes + 1) != 0])\<close>.
\<close>

definition remove_first_bytes_from_bytearray_of_many_transactions :: "byte list \<Rightarrow> byte list" where
  "remove_first_bytes_from_bytearray_of_many_transactions buf =
     map snd (filter (\<lambda>(i, b). i mod (bytes_per_3axes + 1) \<noteq> 0) (enumerate 0 buf))"


section \<open>The FIFO control byte\<close>

text \<open>\<open>bin(n)\<close>: an optional sign, \<open>0b\<close>, and the binary digits of the absolute value.\<close>

fun bin_digits :: "nat \<Rightarrow> string" where
  "bin_digits n =
     (if n < 2 then [if n = 0 then CHR ''0'' else CHR ''1'']
      else bin_digits (n div 2) @ [if n mod 2 = 0 then CHR ''0'' else CHR ''1''])"

declare bin_digits.simps [simp del]

definition py_bin :: "int \<Rightarrow> string" where
  "py_bin n = (if n < 0 then ''-'' else []) @ ''0b'' @ bin_digits (nat \<bar>n\<bar>)"

text \<open>\<open>s.split(sep)\<close> for a separator of one character.\<close>

fun split_chr :: "char \<Rightarrow> string \<Rightarrow> string list" where
  "split_chr sep [] = [[]]"
| "split_chr sep (c # s) =
     (if c = sep then [] # split_chr sep s
      else (case split_chr sep s of [] \<Rightarrow> [[c]] | p # ps \<Rightarrow> (c # p) # ps))"

text \<open>Indexing a list or a \<open>bytes\<close> object: negative indices count from the end.\<close>

definition item :: "'a list \<Rightarrow> int \<Rightarrow> error + 'a" where
  "item xs i =
     (let n = int (length xs); j = (if i < 0 then n + i else i)
      in if 0 \<le> j \<and> j < n then Inr (xs ! nat j) else Inl IndexError)"

text \<open>\<open>'{:>5}'.format(s)\<close> pads with spaces on the left and never truncates.\<close>

definition rjust :: "nat \<Rightarrow> string \<Rightarrow> string" where
  "rjust width s = replicate (width - length s) CHR '' '' @ s"

definition replace_chr :: "char \<Rightarrow> char \<Rightarrow> string \<Rightarrow> string" where
  "replace_chr old new s = map (\<lambda>c. if c = old then new else c) s"

text \<open>
  \<open>int(s, 2)\<close> on the strings the driver builds: an optional \<open>0b\<close>, then at least one binary
  digit; anything else is a \<open>ValueError\<close>.
\<close>

definition int_base2 :: "string \<Rightarrow> error + int" where
  "int_base2 s =
     (let ds = (if take 2 s = ''0b'' then drop 2 s else s)
      in if ds = [] \<or> \<not> list_all (\<lambda>c. c = CHR ''0'' \<or> c = CHR ''1'') ds then Inl ValueError
         else Inr (foldl (\<lambda>a c. 2 * a + (if c = CHR ''1'' then 1 else 0)) 0 ds))"

text \<open>
  The \<open>else\<close> branch of \<open>set_fifo_mode\<close> (lines 174 to 177):
  \<open>wm_bstr = bin(watermark_level).split('b')[1]\<close>,
  \<open>bstr = '0b' + '100' + '{:>5}'.format(wm_bstr).replace(' ', '0')\<close>, \<open>b = int(bstr, 2)\<close>.
\<close>

definition stream_byte :: "int \<Rightarrow> error + int" where
  "stream_byte watermark_level =
     (case item (split_chr CHR ''b'' (py_bin watermark_level)) 1 of
        Inl e \<Rightarrow> Inl e
      | Inr wm_bstr \<Rightarrow>
          int_base2 (''0b'' @ ''100'' @ replace_chr CHR '' '' CHR ''0'' (rjust 5 wm_bstr)))"


section \<open>The driver object, the bus and the clock\<close>

text \<open>
  The constants of \<open>__init__\<close>, the register addresses and the tables of allowed values.
  A float key of \<open>device_sampling_rates\<close> is the rational its literal denotes.
\<close>

definition read_mask :: int where "read_mask = 0x80"
definition multibyte_mask :: int where "multibyte_mask = 0x40"
definition regaddr_acc :: int where "regaddr_acc = 0x32"
definition regaddr_freq :: int where "regaddr_freq = 0x2C"
definition regaddr_pwr :: int where "regaddr_pwr = 0x2D"
definition regaddr_intsource :: int where "regaddr_intsource = 0x30"
definition regaddr_fifoctl :: int where "regaddr_fifoctl = 0x38"
definition regaddr_fifostatus :: int where "regaddr_fifostatus = 0x39"

definition power_modes :: "string \<rightharpoonup> int" where
  "power_modes = map_of [(''standby'', 0x00), (''measure'', 0x08)]"

definition device_sampling_rates :: "rat \<rightharpoonup> int" where
  "device_sampling_rates = map_of
     [(156 / 100, 0x04), (313 / 100, 0x05), (625 / 100, 0x06), (125 / 10, 0x07), (25, 0x08),
      (50, 0x09), (100, 0x0a), (200, 0x0b), (400, 0x0c), (800, 0x0d), (1600, 0x0e),
      (3200, 0x0f)]"

text \<open>
  One transaction on the SPI bus, as the bus sees it: \<open>spi.write\<close> of a register address
  and a byte, or \<open>spi.read\<close>/\<open>spi.readinto\<close> of a number of bytes while a command byte is
  clocked out.
\<close>

datatype xfer = Write int int | Read nat int

text \<open>
  The state of the object and of its pins. An attribute that only a setter creates
  (\<open>power_mode\<close>, \<open>sampling_rate\<close>, ...) is \<open>None\<close> until then. \<open>bus_log\<close> is the list
  of the transactions completed so far, \<open>nticks\<close> the number of calls of
  \<open>time.ticks_us\<close> so far.
\<close>

record adxl =
  power_mode :: "string option"
  g_range :: "int option"
  sampling_rate :: "rat option"
  fifo_mode :: "string option"
  watermark_level :: "int option"
  cs :: int
  bus_log :: "xfer list"
  nticks :: nat

text \<open>
  What the driver cannot decide: \<open>miso t j\<close> is byte \<open>j\<close> that the device sends during
  transaction number \<open>t\<close>; \<open>bus_fault t\<close> is the exception \<open>machine.SPI\<close> raises in place
  of transaction \<open>t\<close>, if any; \<open>ticks k\<close> is the value of call number \<open>k\<close> of
  \<open>time.ticks_us\<close>; \<open>py_mul a b\<close> is the value of the product
  \<open>acquisition_time * self.sampling_rate\<close> as the interpreter computes it, exact when both
  factors are \<open>int\<close>s and rounded to the interpreter's float format otherwise (so
  \<open>0.29 * 100\<close> may be a little less than 29). Nothing is assumed about the rounding.
\<close>

record env =
  miso :: "nat \<Rightarrow> nat \<Rightarrow> byte"
  bus_fault :: "nat \<Rightarrow> error option"
  ticks :: "nat \<Rightarrow> int"
  py_mul :: "rat \<Rightarrow> rat \<Rightarrow> rat"

text \<open>
  A method is a function from the state to a result and the state it leaves, also when
  it raises. A method with a loop that may spin forever takes fuel (the number of loop
  iterations it may run) and gives \<open>None\<close> when the fuel runs out.
\<close>

type_synonym 'a io = "adxl \<Rightarrow> (error + 'a) \<times> adxl"
type_synonym 'a run = "adxl \<Rightarrow> ((error + 'a) \<times> adxl) option"

definition io_return :: "'a \<Rightarrow> 'a io" where
  "io_return v s = (Inr v, s)"

definition io_of :: "error + 'a \<Rightarrow> 'a io" where
  "io_of r s = (r, s)"

definition io_bind :: "'a io \<Rightarrow> ('a \<Rightarrow> 'b io) \<Rightarrow> 'b io" where
  "io_bind m f s = (case m s of (Inl e, s') \<Rightarrow> (Inl e, s') | (Inr v, s') \<Rightarrow> f v s')"

definition lift :: "'a io \<Rightarrow> 'a run" where
  "lift m s = Some (m s)"

definition run_bind :: "'a run \<Rightarrow> ('a \<Rightarrow> 'b run) \<Rightarrow> 'b run" where
  "run_bind m f s =
     (case m s of
        None \<Rightarrow> None
      | Some (Inl e, s') \<Rightarrow> Some (Inl e, s')
      | Some (Inr v, s') \<Rightarrow> f v s')"

definition getattr :: "(adxl \<Rightarrow> 'a option) \<Rightarrow> 'a io" where
  "getattr field s = (case field s of None \<Rightarrow> (Inl AttributeError, s) | Some v \<Rightarrow> (Inr v, s))"

definition cs_value :: "int \<Rightarrow> unit io" where
  "cs_value v s = (Inr (), s\<lparr>cs := v\<rparr>)"

definition ticks_us :: "env \<Rightarrow> int io" where
  "ticks_us env s = (Inr (ticks env (nticks s)), s\<lparr>nticks := Suc (nticks s)\<rparr>)"

text \<open>\<open>spi.write(bytearray((regaddr, the_byte)))\<close>: the \<open>bytearray\<close> wants two bytes.\<close>

definition spi_write :: "env \<Rightarrow> int \<Rightarrow> int \<Rightarrow> unit io" where
  "spi_write env regaddr the_byte s =
     (if \<not> (0 \<le> regaddr \<and> regaddr < 256 \<and> 0 \<le> the_byte \<and> the_byte < 256)
      then (Inl ValueError, s)
      else case bus_fault env (length (bus_log s)) of
             Some e \<Rightarrow> (Inl e, s)
           | None \<Rightarrow> (Inr (), s\<lparr>bus_log := bus_log s @ [Write regaddr the_byte]\<rparr>))"

text \<open>\<open>spi.read(nbytes, wbyte)\<close>.\<close>

definition spi_read :: "env \<Rightarrow> nat \<Rightarrow> int \<Rightarrow> byte list io" where
  "spi_read env nbytes wbyte s =
     (case bus_fault env (length (bus_log s)) of
        Some e \<Rightarrow> (Inl e, s)
      | None \<Rightarrow>
          (Inr (map (miso env (length (bus_log s))) [0..<nbytes]),
           s\<lparr>bus_log := bus_log s @ [Read nbytes wbyte]\<rparr>))"

text \<open>
  \<open>spi.readinto(m[i:j], wbyte)\<close> for a memoryview \<open>m\<close> of \<open>buf\<close>: the slice is clipped to
  the buffer, and the bytes received replace that part of \<open>buf\<close>.
\<close>

definition spi_readinto :: "env \<Rightarrow> byte list \<Rightarrow> nat \<Rightarrow> nat \<Rightarrow> int \<Rightarrow> byte list io" where
  "spi_readinto env buf i j wbyte s =
     (let i' = min i (length buf); j' = min j (length buf); nbytes = j' - i'
      in case bus_fault env (length (bus_log s)) of
           Some e \<Rightarrow> (Inl e, s)
         | None \<Rightarrow>
             (Inr (take i' buf @ map (miso env (length (bus_log s))) [0..<nbytes]
                     @ drop (i' + nbytes) buf),
              s\<lparr>bus_log := bus_log s @ [Read nbytes wbyte]\<rparr>))"

text \<open>\<open>bytearray(n)\<close>: \<open>n\<close> zero bytes; MicroPython cannot allocate a negative size.\<close>

definition bytearray :: "int \<Rightarrow> error + byte list" where
  "bytearray n = (if n < 0 then Inl MemoryError else Inr (replicate (nat n) 0))"

text \<open>\<open>int(x)\<close> of a number truncates towards zero.\<close>

definition int_trunc :: "rat \<Rightarrow> int" where
  "int_trunc x = (if 0 \<le> x then \<lfloor>x\<rfloor> else \<lceil>x\<rceil>)"

text \<open>\<open>xs[:j]\<close>, and \<open>xs[i] = v\<close> for \<open>0 \<le> i\<close>.\<close>

definition py_prefix :: "'a list \<Rightarrow> int \<Rightarrow> 'a list" where
  "py_prefix xs j = (if 0 \<le> j then take (nat j) xs else take (nat (int (length xs) + j)) xs)"

definition set_item :: "'a list \<Rightarrow> nat \<Rightarrow> 'a \<Rightarrow> error + 'a list" where
  "set_item xs i v = (if i < length xs then Inr (xs[i := v]) else Inl IndexError)"

definition truediv :: "rat \<Rightarrow> rat \<Rightarrow> error + rat" where
  "truediv a b = (if b = 0 then Inl ZeroDivisionError else Inr (a / b))"

section \<open>General purpose: writing and reading a register\<close>

text \<open>The method \<open>write\<close>; its name is a keyword of Isabelle, hence \<open>write_reg\<close>.\<close>

definition write_reg :: "env \<Rightarrow> int \<Rightarrow> int \<Rightarrow> unit io" where
  "write_reg env regaddr the_byte =
     io_bind (cs_value 0) (\<lambda>_.
     io_bind (spi_write env regaddr the_byte) (\<lambda>_.
     cs_value 1))"

definition read :: "env \<Rightarrow> int \<Rightarrow> nat \<Rightarrow> byte list io" where
  "read env regaddr nbytes =
     (let wbyte = regaddr OR read_mask;
          wbyte = (if nbytes > 1 then wbyte OR multibyte_mask else wbyte)
      in io_bind (cs_value 0) (\<lambda>_.
         io_bind (spi_read env (nbytes + 1) wbyte) (\<lambda>r.
         io_bind (cs_value 1) (\<lambda>_.
         io_return (drop 1 r)))))"

section \<open>Settings\<close>

text \<open>
  The argument of \<open>self.write\<close> is evaluated before the call: a key that the table does not
  have raises \<open>KeyError\<close> there. What \<open>print\<close> writes to the console is not modelled.
\<close>

definition lookup :: "('k \<rightharpoonup> 'v) \<Rightarrow> 'k \<Rightarrow> 'v io" where
  "lookup table k s = (case table k of None \<Rightarrow> (Inl KeyError, s) | Some v \<Rightarrow> (Inr v, s))"

definition set_power_mode :: "env \<Rightarrow> string \<Rightarrow> unit io" where
  "set_power_mode env mode =
     io_bind (lookup power_modes mode) (\<lambda>b.
     io_bind (write_reg env regaddr_pwr b) (\<lambda>_.
     (\<lambda>s. (Inr (), s\<lparr>power_mode := Some mode\<rparr>))))"

definition set_sampling_rate :: "env \<Rightarrow> rat \<Rightarrow> unit io" where
  "set_sampling_rate env sr =
     io_bind (lookup device_sampling_rates sr) (\<lambda>b.
     io_bind (write_reg env regaddr_freq b) (\<lambda>_.
     (\<lambda>s. (Inr (), s\<lparr>sampling_rate := Some sr\<rparr>))))"

definition set_fifo_mode :: "env \<Rightarrow> string \<Rightarrow> int \<Rightarrow> unit io" where
  "set_fifo_mode env mode wm =
     io_bind (\<lambda>s. (Inr (), s\<lparr>fifo_mode := Some mode, watermark_level := Some wm\<rparr>)) (\<lambda>_.
     io_bind (if mode = ''bypass'' then io_return 0 else io_of (stream_byte wm)) (\<lambda>b.
     write_reg env regaddr_fifoctl b))"

section \<open>Readings\<close>

definition clear_fifo :: "env \<Rightarrow> unit io" where
  "clear_fifo env =
     io_bind (set_fifo_mode env ''bypass'' 16) (\<lambda>_. set_fifo_mode env ''stream'' 16)"

definition clear_isdataready :: "env \<Rightarrow> unit io" where
  "clear_isdataready env = io_bind (read env regaddr_acc 6) (\<lambda>_. io_return ())"

definition get_nvalues_in_fifo :: "env \<Rightarrow> nat io" where
  "get_nvalues_in_fifo env =
     io_bind (read env regaddr_fifostatus 1) (\<lambda>r.
     io_bind (io_of (item r 0)) (\<lambda>b.
     io_return (unat (b AND 0x3f))))"


text \<open>
  The body of the \<open>while\<close> loop of \<open>read_many_xyz\<close> (lines 260 to 269) and of
  \<open>read_continuos_xyz\<close> (lines 345 to 356, the same statements): poll the data-ready bit;
  when it is set, fetch one frame into \<open>m[k * 7 : k * 7 + 7]\<close>, store \<open>ticks_us()\<close> in
  \<open>T[k]\<close> and count the sample. The loop state is \<open>(n_act_meas, buf, T)\<close>.
\<close>

definition poll_and_fetch ::
  "env \<Rightarrow> nat \<times> byte list \<times> int list \<Rightarrow> (nat \<times> byte list \<times> int list) io" where
  "poll_and_fetch env st =
     (case st of (n_act_meas, buf, T) \<Rightarrow>
        io_bind (cs_value 0) (\<lambda>_.
        io_bind (spi_read env 2 (regaddr_intsource OR read_mask)) (\<lambda>r.
        io_bind (io_of (item r 1)) (\<lambda>b.
        io_bind (cs_value 1) (\<lambda>_.
        if drop_bit 7 b AND 1 = 0 then io_return (n_act_meas, buf, T)
        else
          io_bind (cs_value 0) (\<lambda>_.
          io_bind (spi_readinto env buf
                     (n_act_meas * (bytes_per_3axes + 1))
                     (n_act_meas * (bytes_per_3axes + 1) + (bytes_per_3axes + 1))
                     (regaddr_acc OR read_mask OR multibyte_mask)) (\<lambda>buf.
          io_bind (cs_value 1) (\<lambda>_.
          io_bind (ticks_us env) (\<lambda>t.
          io_bind (io_of (set_item T n_act_meas t)) (\<lambda>T.
          io_return (n_act_meas + 1, buf, T)))))))))))"

text \<open>\<open>while n_act_meas < n: ...\<close>, one unit of fuel for each run of the body.\<close>

fun poll_loop ::
  "nat \<Rightarrow> env \<Rightarrow> int \<Rightarrow> nat \<times> byte list \<times> int list \<Rightarrow> (nat \<times> byte list \<times> int list) run" where
  "poll_loop 0 env n st s = (if int (fst st) < n then None else Some (Inr st, s))"
| "poll_loop (Suc fuel) env n st s =
     (if int (fst st) < n
      then (case poll_and_fetch env st s of
              (Inl e, s') \<Rightarrow> Some (Inl e, s')
            | (Inr st', s') \<Rightarrow> poll_loop fuel env n st' s')
      else Some (Inr st, s))"

definition read_many_xyz :: "nat \<Rightarrow> env \<Rightarrow> int \<Rightarrow> (byte list \<times> int list) run" where
  "read_many_xyz fuel env n =
     (let n_exp_bytes = (int bytes_per_3axes + 1) * n;
          T = replicate (nat (int_trunc (of_int n * (3 / 2)))) 0
      in run_bind (lift (io_of (bytearray n_exp_bytes))) (\<lambda>buf.
         run_bind (lift (clear_isdataready env)) (\<lambda>_.
         run_bind (lift (ticks_us env)) (\<lambda>t_start.
         run_bind (poll_loop fuel env n (0, buf, T)) (\<lambda>(n_act_meas, buf, T).
         run_bind (lift (ticks_us env)) (\<lambda>t_stop.
         (let buf = remove_first_bytes_from_bytearray_of_many_transactions buf;
              T = py_prefix T n;
              actual_acq_time = of_int (t_stop - t_start) / 1000000
          in run_bind (lift (getattr sampling_rate)) (\<lambda>sr.
             run_bind (lift (io_of (truediv (of_int n) sr))) (\<lambda>_.
             run_bind (lift (io_of (truediv (of_nat n_act_meas) actual_acq_time))) (\<lambda>_.
             lift (io_return (buf, T))))))))))))"

section \<open>Continuous readings\<close>

definition read_continuos_xyz :: "nat \<Rightarrow> env \<Rightarrow> rat \<Rightarrow> (byte list \<times> int list) run" where
  "read_continuos_xyz fuel env acquisition_time =
     run_bind (lift (getattr sampling_rate)) (\<lambda>sr.
     run_bind (lift (getattr g_range)) (\<lambda>_.
     (let n_exp_meas = int_trunc (py_mul env acquisition_time sr);
          n_exp_bytes = (int bytes_per_3axes + 1) * n_exp_meas;
          T = replicate (nat (int_trunc (of_int n_exp_meas * (3 / 2)))) 0
      in run_bind (lift (io_of (bytearray (int_trunc (of_int n_exp_bytes * (3 / 2)))))) (\<lambda>buf.
         run_bind (lift (set_fifo_mode env ''bypass'' 16)) (\<lambda>_.
         run_bind (lift (set_power_mode env ''measure'')) (\<lambda>_.
         run_bind (poll_loop fuel env n_exp_meas (0, buf, T)) (\<lambda>(n_act_meas, buf, T).
         run_bind (lift (set_power_mode env ''standby'')) (\<lambda>_.
         (let buf = remove_first_bytes_from_bytearray_of_many_transactions buf;
              buf = py_prefix buf (n_exp_meas * int bytes_per_3axes);
              T = py_prefix T (int n_act_meas)
          in run_bind (lift (io_of (item T (- 1)))) (\<lambda>t_last.
             run_bind (lift (io_of (item T 0))) (\<lambda>t_first.
             run_bind (lift (io_of (truediv (of_nat n_act_meas)
                                      (of_int (t_last - t_first) / 1000000)))) (\<lambda>_.
             lift (io_return (buf, T))))))))))))))"

text \<open>
  \<open>for _ in range(nvalues_infifo): ...\<close> (lines 402 to 406): that many fetches, the count
  is not looked at in between. The loop state is \<open>(n_act_meas, buf)\<close>.
\<close>

fun drain :: "nat \<Rightarrow> env \<Rightarrow> nat \<times> byte list \<Rightarrow> (nat \<times> byte list) io" where
  "drain 0 env st = io_return st"
| "drain (Suc k) env st =
     (case st of (n_act_meas, buf) \<Rightarrow>
        io_bind (cs_value 0) (\<lambda>_.
        io_bind (spi_readinto env buf
                   (n_act_meas * (bytes_per_3axes + 1))
                   (n_act_meas * (bytes_per_3axes + 1) + (bytes_per_3axes + 1))
                   (regaddr_acc OR read_mask OR multibyte_mask)) (\<lambda>buf.
        io_bind (cs_value 1) (\<lambda>_.
        drain k env (n_act_meas + 1, buf)))))"

text \<open>One poll iteration of the \<open>while\<close> loop of \<open>read_continuos_xyz_fromfifo\<close>.\<close>

definition fifo_iteration :: "env \<Rightarrow> nat \<times> byte list \<Rightarrow> (nat \<times> byte list) io" where
  "fifo_iteration env st =
     io_bind (get_nvalues_in_fifo env) (\<lambda>nvalues_infifo. drain nvalues_infifo env st)"

fun fifo_loop :: "nat \<Rightarrow> env \<Rightarrow> int \<Rightarrow> nat \<times> byte list \<Rightarrow> (nat \<times> byte list) run" where
  "fifo_loop 0 env n st s = (if int (fst st) < n then None else Some (Inr st, s))"
| "fifo_loop (Suc fuel) env n st s =
     (if int (fst st) < n
      then (case fifo_iteration env st s of
              (Inl e, s') \<Rightarrow> Some (Inl e, s')
            | (Inr st', s') \<Rightarrow> fifo_loop fuel env n st' s')
      else Some (Inr st, s))"

definition read_continuos_xyz_fromfifo ::
  "nat \<Rightarrow> env \<Rightarrow> rat \<Rightarrow> (byte list \<times> rat list) run" where
  "read_continuos_xyz_fromfifo fuel env acquisition_time =
     run_bind (lift (getattr sampling_rate)) (\<lambda>sr.
     run_bind (lift (getattr g_range)) (\<lambda>_.
     (let n_exp_meas = int_trunc (py_mul env acquisition_time sr);
          n_exp_bytes = (int bytes_per_3axes + 1) * n_exp_meas
      in run_bind (lift (io_of (bytearray (int_trunc (of_int n_exp_bytes * (3 / 2)))))) (\<lambda>buf.
         run_bind (lift (set_fifo_mode env ''stream'' 16)) (\<lambda>_.
         run_bind (lift (set_power_mode env ''measure'')) (\<lambda>_.
         run_bind (lift (clear_fifo env)) (\<lambda>_.
         run_bind (lift (ticks_us env)) (\<lambda>t_start.
         run_bind (fifo_loop fuel env n_exp_meas (0, buf)) (\<lambda>(n_act_meas, buf).
         run_bind (lift (ticks_us env)) (\<lambda>t_stop.
         run_bind (lift (set_power_mode env ''standby'')) (\<lambda>_.
         (let buf = remove_first_bytes_from_bytearray_of_many_transactions buf;
              buf = py_prefix buf (n_exp_meas * int bytes_per_3axes)
          in run_bind (lift (io_of (collect (map (\<lambda>i. truediv (of_nat i) sr)
                                               [0..<nat n_exp_meas])))) (\<lambda>T.
             run_bind (lift (io_of (truediv (of_nat n_act_meas)
                                      (of_int (t_stop - t_start) / 1000000)))) (\<lambda>_.
             lift (io_return (buf, T))))))))))))))))"


section \<open>Inputs used in the examples\<close>

text \<open>
  The acquisition times of the examples are \<open>1/64\<close> and \<open>3/128\<close> seconds at 100 Hz:
  these factors and their products \<open>1.5625\<close> and \<open>2.34375\<close> are binary fractions of a
  few bits, which every binary float format holds exactly, so the environments of the
  examples take the exact product for \<open>py_mul\<close>.
\<close>

text \<open>
  The encoding the specification describes for a signed 16-bit reading: the value modulo
  65536 as an unsigned word, low byte first. (The driver only decodes; this definition
  follows the specification's words.)
\<close>

definition encode_le_u16 :: "int \<Rightarrow> byte list" where
  "encode_le_u16 v =
     (let w = v mod 65536 in [word_of_int (w mod 256), word_of_int (w div 256)])"

text \<open>A freshly constructed object after \<open>init_spi\<close>: no setter has been called.\<close>

definition s_init :: adxl where
  "s_init = \<lparr>power_mode = None, g_range = None, sampling_rate = None, fifo_mode = None,
     watermark_level = None, cs = 1, bus_log = [], nticks = 0\<rparr>"

text \<open>A device that answers every transaction with zero bytes, and a clock that advances.\<close>

definition env_quiet :: env where
  "env_quiet = \<lparr>miso = (\<lambda>t j. 0), bus_fault = (\<lambda>t. None), ticks = (\<lambda>k. int k),
     py_mul = (\<lambda>a b. a * b)\<rparr>"

text \<open>
  An object on which \<open>set_power_mode('standby')\<close>, \<open>set_g_range(2)\<close> and
  \<open>set_sampling_rate(100)\<close> have been called; the bus log and the tick count start here.
\<close>

definition s_configured :: adxl where
  "s_configured = \<lparr>power_mode = Some ''standby'', g_range = Some 2, sampling_rate = Some 100,
     fifo_mode = None, watermark_level = None, cs = 1, bus_log = [], nticks = 0\<rparr>"

text \<open>
  A device that sends \<open>0x80\<close> in every byte (its data-ready bit is always set), and a
  clock that advances by 10 microseconds from one call to the next.
\<close>

definition env_ready :: env where
  "env_ready = \<lparr>miso = (\<lambda>t j. 0x80), bus_fault = (\<lambda>t. None), ticks = (\<lambda>k. 10 * int k),
     py_mul = (\<lambda>a b. a * b)\<rparr>"

text \<open>
  What \<open>get_nvalues_in_fifo\<close> returns when its read is transaction number \<open>t\<close>: the low
  six bits of the byte that follows the command byte.
\<close>

definition fifo_count :: "env \<Rightarrow> nat \<Rightarrow> nat" where
  "fifo_count env t = unat (miso env t 1 AND 0x3f)"


text \<open>A device whose FIFO status byte is always \<open>0x02\<close>: every poll reports 2 samples.\<close>

definition env_two :: env where
  "env_two = \<lparr>miso = (\<lambda>t j. 0x02), bus_fault = (\<lambda>t. None), ticks = (\<lambda>k. 10 * int k),
     py_mul = (\<lambda>a b. a * b)\<rparr>"


text \<open>A bus on which transaction number \<open>t0\<close> raises \<open>OSError\<close>.\<close>

definition env_fault_at :: "nat \<Rightarrow> env" where
  "env_fault_at t0 = \<lparr>miso = (\<lambda>t j. 0x80),
     bus_fault = (\<lambda>t. if t = t0 then Some OSError else None), ticks = (\<lambda>k. 10 * int k),
     py_mul = (\<lambda>a b. a * b)\<rparr>"

section \<open>The decoder\<close>

lemma unpack_HHH_ok: "6 \<le> length b \<Longrightarrow> \<exists>t. unpack_HHH b = Inr t"
  by (cases b rule: unpack_HHH.cases) auto

lemma collect_all_Inr:
  "(\<And>x. x \<in> set xs \<Longrightarrow> \<exists>v. f x = Inr v) \<Longrightarrow>
     \<exists>vs. collect (map f xs) = Inr vs \<and> length vs = length xs"
proof (induction xs)
  case Nil
  then show ?case by simp
next
  case (Cons x xs)
  then obtain v where v: "f x = Inr v" by auto
  from Cons obtain vs where vs: "collect (map f xs) = Inr vs" "length vs = length xs" by auto
  show ?case using v vs by simp
qed

lemma xyzbytes2g_ok: "6 \<le> length buf \<Longrightarrow> \<exists>r. xyzbytes2g buf = Inr r"
proof -
  assume len: "6 \<le> length buf"
  let ?is = "filter (\<lambda>i. i mod 6 = 0) [0..<length buf div 6]"
  let ?f = "\<lambda>i. unpack_HHH (py_slice buf i (i + 6))"
  have "\<exists>v. ?f i = Inr v" if "i \<in> set ?is" for i
  proof -
    from that have "i < length buf div 6" by simp
    then have "i + 6 \<le> length buf" using len by linarith
    then show ?thesis by (intro unpack_HHH_ok) (simp add: py_slice_def)
  qed
  from collect_all_Inr [of ?is ?f, OF this]
  obtain vs where vs: "collect (map ?f ?is) = Inr vs" "length vs = length ?is" by blast
  have "0 \<in> set ?is" using len by simp
  then have "vs \<noteq> []" using vs(2) by (metis length_0_conv empty_iff empty_set)
  then obtain t ts where "vs = t # ts" by (cases vs) auto
  then show ?thesis using vs(1) by (simp add: xyzbytes2g_def bytes_per_3axes_def)
qed

lemma xyzbytes2g_short: "length buf < 6 \<Longrightarrow> xyzbytes2g buf = Inl ValueError"
  by (simp add: xyzbytes2g_def bytes_per_3axes_def)

lemma xyzbytes2g_one_frame:
  "xyzbytes2g [x0, x1, y0, y1, z0, z1] =
     Inr ([neg_rule (le_u16 x0 x1)], [neg_rule (le_u16 y0 y1)], [neg_rule (le_u16 z0 z1)])"
  by (simp add: xyzbytes2g_def bytes_per_3axes_def py_slice_def)

text \<open>
  Claim C1 says that a buffer of \<open>6k\<close> bytes decodes to three sequences of length \<open>k\<close>.
  The comprehension of \<open>xyzbytes2g\<close> runs its byte offset \<open>i\<close> over \<open>range(n_act_meas)\<close>,
  the number of samples, instead of over the bytes of the buffer: a buffer of 12 bytes
  (two samples) decodes to three sequences of length 1, the first sample only.
\<close>

theorem xyzbytes2g_two_samples_gives_one:
  "length [1, 0, 2, 0, 3, 0, 4, 0, 5, 0, 6, 0 :: byte] = 6 * 2
   \<and> xyzbytes2g [1, 0, 2, 0, 3, 0, 4, 0, 5, 0, 6, 0] = Inr ([1], [2], [3])"
  by code_simp

text \<open>
  Claim C6 says that a buffer whose length is not a multiple of 6 is rejected. As stated
  it fails: a buffer of 7 bytes is decoded, the seventh byte ignored.
\<close>

theorem xyzbytes2g_accepts_seven_bytes:
  "length [1, 0, 2, 0, 3, 0, 9 :: byte] mod 6 \<noteq> 0
   \<and> xyzbytes2g [1, 0, 2, 0, 3, 0, 9] = Inr ([1], [2], [3])"
  by code_simp

text \<open>
  Claim C6 as amended: the decoder has no length check. It succeeds on every buffer of at
  least 6 bytes, whether or not the length is a multiple of 6, and it raises \<open>ValueError\<close>
  on a non-empty buffer of fewer than 6 bytes.
\<close>

theorem xyzbytes2g_no_length_check:
  "(6 \<le> length buf \<longrightarrow> (\<exists>r. xyzbytes2g buf = Inr r))
   \<and> (0 < length buf \<and> length buf < 6 \<longrightarrow> xyzbytes2g buf = Inl ValueError)"
  using xyzbytes2g_ok [of buf] xyzbytes2g_short [of buf] by blast

theorem xyzbytes2g_no_length_check_witness:
  "6 \<le> length [1, 0, 2, 0, 3, 0, 9, 9 :: byte]
   \<and> (\<exists>r. xyzbytes2g [1, 0, 2, 0, 3, 0, 9, 9] = Inr r)
   \<and> 0 < length [1, 0, 2 :: byte] \<and> length [1, 0, 2 :: byte] < 6
   \<and> xyzbytes2g [1, 0, 2] = Inl ValueError"
  using xyzbytes2g_no_length_check [of "[1, 0, 2, 0, 3, 0, 9, 9]"]
    xyzbytes2g_no_length_check [of "[1, 0, 2]"]
  by simp

lemma le_u16_encode:
  "encode_le_u16 v = [lo, hi] \<Longrightarrow> le_u16 lo hi = v mod 65536"
proof -
  assume e: "encode_le_u16 v = [lo, hi]"
  define w where "w = v mod 65536"
  have w: "0 \<le> w" "w < 65536" by (simp_all add: w_def)
  have lo: "uint lo = w mod 256" using e
    by (auto simp: encode_le_u16_def Let_def w_def uint_word_of_int take_bit_eq_mod)
  have "w div 256 < 256" using w by simp
  moreover have "0 \<le> w div 256" using w by simp
  ultimately have hi: "uint hi = w div 256" using e
    by (auto simp: encode_le_u16_def Let_def w_def uint_word_of_int take_bit_eq_mod)
  show ?thesis unfolding le_u16_def lo hi w_def [symmetric] by simp
qed

lemma neg_rule_mod: "- 32768 \<le> v \<Longrightarrow> v \<le> 32767 \<Longrightarrow> neg_rule (v mod 65536) = v"
proof (cases "0 \<le> v")
  case True
  assume "v \<le> 32767"
  with True have "v mod 65536 = v" by simp
  then show ?thesis using \<open>v \<le> 32767\<close> by (simp add: neg_rule_def)
next
  case False
  assume "- 32768 \<le> v"
  with False have "(v + 65536) mod 65536 = v + 65536"
    by (intro mod_pos_pos_trivial) auto
  then have "v mod 65536 = v + 65536" by simp
  then show ?thesis using False \<open>- 32768 \<le> v\<close> by (simp add: neg_rule_def)
qed

lemma decode_encode:
  assumes "- 32768 \<le> v" "v \<le> 32767" "encode_le_u16 v = [lo, hi]"
  shows "neg_rule (le_u16 lo hi) = v"
  using assms by (simp add: le_u16_encode neg_rule_mod)

lemma encode_le_u16_two: "\<exists>lo hi. encode_le_u16 v = [lo, hi]"
  by (simp add: encode_le_u16_def Let_def)

text \<open>
  Claim C8: a reading \<open>v\<close> between -32768 and 32767, encoded as the little-endian unsigned
  word \<open>v mod 65536\<close>, is decoded to \<open>v\<close> again, on each of the three axes; and the bytes
  \<open>FF FF\<close>, \<open>00 80\<close>, \<open>FF 7F\<close> and \<open>00 00\<close> decode to -1, -32768, 32767 and 0.
\<close>

theorem xyzbytes2g_roundtrip:
  "(- 32768 \<le> x \<and> x \<le> 32767 \<and> - 32768 \<le> y \<and> y \<le> 32767 \<and> - 32768 \<le> z \<and> z \<le> 32767
      \<longrightarrow> xyzbytes2g (encode_le_u16 x @ encode_le_u16 y @ encode_le_u16 z)
            = Inr ([x], [y], [z]))
   \<and> xyzbytes2g [0xFF, 0xFF, 0x00, 0x80, 0xFF, 0x7F] = Inr ([- 1], [- 32768], [32767])
   \<and> xyzbytes2g [0x00, 0x00, 0x00, 0x00, 0x00, 0x00] = Inr ([0], [0], [0])"
proof (intro conjI impI)
  assume r: "- 32768 \<le> x \<and> x \<le> 32767 \<and> - 32768 \<le> y \<and> y \<le> 32767
               \<and> - 32768 \<le> z \<and> z \<le> 32767"
  obtain x0 x1 where ex: "encode_le_u16 x = [x0, x1]" using encode_le_u16_two by blast
  obtain y0 y1 where ey: "encode_le_u16 y = [y0, y1]" using encode_le_u16_two by blast
  obtain z0 z1 where ez: "encode_le_u16 z = [z0, z1]" using encode_le_u16_two by blast
  have "neg_rule (le_u16 x0 x1) = x" "neg_rule (le_u16 y0 y1) = y" "neg_rule (le_u16 z0 z1) = z"
    using r ex ey ez by (simp_all add: decode_encode)
  then show "xyzbytes2g (encode_le_u16 x @ encode_le_u16 y @ encode_le_u16 z)
               = Inr ([x], [y], [z])"
    by (simp add: ex ey ez xyzbytes2g_one_frame)
next
  show "xyzbytes2g [0xFF, 0xFF, 0x00, 0x80, 0xFF, 0x7F] = Inr ([- 1], [- 32768], [32767])"
    by code_simp
next
  show "xyzbytes2g [0x00, 0x00, 0x00, 0x00, 0x00, 0x00] = Inr ([0], [0], [0])"
    by code_simp
qed

theorem xyzbytes2g_roundtrip_witness:
  "- 32768 \<le> (- 300 :: int) \<and> (- 300 :: int) \<le> 32767
   \<and> - 32768 \<le> (32767 :: int) \<and> (32767 :: int) \<le> 32767
   \<and> - 32768 \<le> (- 32768 :: int) \<and> (- 32768 :: int) \<le> 32767
   \<and> xyzbytes2g (encode_le_u16 (- 300) @ encode_le_u16 32767 @ encode_le_u16 (- 32768))
       = Inr ([- 300], [32767], [- 32768])"
  using xyzbytes2g_roundtrip [of "- 300" 32767 "- 32768"] by simp

section \<open>Frame stripping\<close>

lemma frame_strip:
  assumes "length f = 7"
  shows "map snd (filter (\<lambda>(i, b). i mod 7 \<noteq> 0) (enumerate (7 * q) f)) = drop 1 f"
proof -
  from assms obtain a b c d e g h where f: "f = [a, b, c, d, e, g, h]"
    by (auto simp: length_Suc_conv numeral_eq_Suc)
  show ?thesis unfolding f by (simp add: mod_Suc)
qed

lemma strip_frames:
  "(\<And>f. f \<in> set frames \<Longrightarrow> length f = 7) \<Longrightarrow>
    map snd (filter (\<lambda>(i, b). i mod 7 \<noteq> 0) (enumerate (7 * q) (concat frames)))
      = concat (map (drop 1) frames)"
proof (induction frames arbitrary: q)
  case Nil
  then show ?case by simp
next
  case (Cons f fs)
  have lf: "length f = 7" using Cons.prems by simp
  have "7 * q + length f = 7 * Suc q" using lf by simp
  then show ?case
    using Cons.IH [of "Suc q"] Cons.prems frame_strip [OF lf, of q]
    by (simp add: enumerate_append_eq del: mult_Suc_right)
qed

lemma length_concat_drop1:
  "(\<And>f. f \<in> set frames \<Longrightarrow> length f = 7) \<Longrightarrow>
     length (concat (map (drop 1) frames)) = 6 * length frames"
  by (induction frames) auto

text \<open>
  Claim C9: for a raw buffer made of \<open>m\<close> frames of 7 bytes, the stripping returns the
  concatenation of the last 6 bytes of each frame, in order, which is \<open>6m\<close> bytes.
\<close>

theorem remove_first_bytes_of_frames:
  assumes "\<forall>f \<in> set frames. length f = bytes_per_3axes + 1"
  shows "remove_first_bytes_from_bytearray_of_many_transactions (concat frames)
           = concat (map (drop 1) frames)
         \<and> length (remove_first_bytes_from_bytearray_of_many_transactions (concat frames))
           = 6 * length frames"
proof -
  have l: "\<And>f. f \<in> set frames \<Longrightarrow> length f = 7"
    using assms by (simp add: bytes_per_3axes_def)
  have "remove_first_bytes_from_bytearray_of_many_transactions (concat frames)
          = concat (map (drop 1) frames)"
    using strip_frames [of frames 0, OF l]
    by (simp add: remove_first_bytes_from_bytearray_of_many_transactions_def bytes_per_3axes_def)
  then show ?thesis using length_concat_drop1 [of frames, OF l] by simp
qed

theorem remove_first_bytes_of_frames_witness:
  "length [0xE5, 1, 2, 3, 4, 5, 6 :: byte] = bytes_per_3axes + 1
   \<and> length [0xE5, 7, 8, 9, 10, 11, 12 :: byte] = bytes_per_3axes + 1
   \<and> remove_first_bytes_from_bytearray_of_many_transactions
       [0xE5, 1, 2, 3, 4, 5, 6, 0xE5, 7, 8, 9, 10, 11, 12]
     = [1, 2, 3, 4, 5, 6, 7, 8, 9, 10, 11, 12]"
proof -
  have h: "\<forall>f \<in> set [[0xE5, 1, 2, 3, 4, 5, 6], [0xE5, 7, 8, 9, 10, 11, 12 :: byte]].
             length f = bytes_per_3axes + 1"
    by (simp add: bytes_per_3axes_def)
  show ?thesis using h remove_first_bytes_of_frames [OF h] by simp
qed

section \<open>Settings\<close>

lemma stream_byte_table: "\<forall>w \<in> {0..<32::nat}. stream_byte (int w) = Inr (128 + int w)"
  by code_simp

lemma stream_byte_5bit: "0 \<le> w \<Longrightarrow> w \<le> 31 \<Longrightarrow> stream_byte w = Inr (128 + w)"
proof -
  assume "0 \<le> w" "w \<le> 31"
  then have "nat w \<in> {0..<32}" by simp
  then have "stream_byte (int (nat w)) = Inr (128 + int (nat w))"
    using stream_byte_table by blast
  then show ?thesis using \<open>0 \<le> w\<close> by simp
qed

lemma write_reg_ok:
  "bus_fault env (length (bus_log s)) = None \<Longrightarrow> 0 \<le> a \<Longrightarrow> a < 256 \<Longrightarrow> 0 \<le> b \<Longrightarrow> b < 256 \<Longrightarrow>
     write_reg env a b s = (Inr (), s\<lparr>cs := 1, bus_log := bus_log s @ [Write a b]\<rparr>)"
  by (simp add: write_reg_def io_bind_def cs_value_def spi_write_def)

text \<open>
  Claim C7: the FIFO control byte is the 3-bit tag \<open>100\<close> followed by the 5-bit watermark:
  for a watermark \<open>w\<close> from 0 to 31, \<open>set_fifo_mode('stream', w)\<close> writes \<open>4 * 2^5 + w\<close> to
  the FIFO control register; \<open>set_fifo_mode('stream', 16)\<close> writes \<open>0x90\<close>; and
  \<open>set_fifo_mode('bypass', w)\<close> writes \<open>0x00\<close> for every \<open>w\<close>. (The bus is taken to carry
  the transaction.)
\<close>

theorem set_fifo_mode_control_byte:
  assumes "bus_fault env (length (bus_log s)) = None"
  shows "(0 \<le> w \<and> w \<le> 31 \<longrightarrow>
            set_fifo_mode env ''stream'' w s =
              (Inr (), s\<lparr>fifo_mode := Some ''stream'', watermark_level := Some w, cs := 1,
                          bus_log := bus_log s @ [Write regaddr_fifoctl (push_bit 5 4 + w)]\<rparr>))
       \<and> set_fifo_mode env ''stream'' 16 s =
              (Inr (), s\<lparr>fifo_mode := Some ''stream'', watermark_level := Some 16, cs := 1,
                          bus_log := bus_log s @ [Write regaddr_fifoctl 0x90]\<rparr>)
       \<and> set_fifo_mode env ''bypass'' w s =
              (Inr (), s\<lparr>fifo_mode := Some ''bypass'', watermark_level := Some w, cs := 1,
                          bus_log := bus_log s @ [Write regaddr_fifoctl 0x00]\<rparr>)"
proof (intro conjI impI)
  assume w: "0 \<le> w \<and> w \<le> 31"
  then have sb: "stream_byte w = Inr (128 + w)" by (simp add: stream_byte_5bit)
  show "set_fifo_mode env ''stream'' w s =
              (Inr (), s\<lparr>fifo_mode := Some ''stream'', watermark_level := Some w, cs := 1,
                          bus_log := bus_log s @ [Write regaddr_fifoctl (push_bit 5 4 + w)]\<rparr>)"
    using assms w
    by (simp add: set_fifo_mode_def io_bind_def io_of_def sb write_reg_ok regaddr_fifoctl_def
        push_bit_eq_mult)
next
  have sb: "stream_byte 16 = Inr 144" by (simp add: stream_byte_5bit)
  show "set_fifo_mode env ''stream'' 16 s =
              (Inr (), s\<lparr>fifo_mode := Some ''stream'', watermark_level := Some 16, cs := 1,
                          bus_log := bus_log s @ [Write regaddr_fifoctl 0x90]\<rparr>)"
    using assms
    by (simp add: set_fifo_mode_def io_bind_def io_of_def sb write_reg_ok regaddr_fifoctl_def)
next
  show "set_fifo_mode env ''bypass'' w s =
              (Inr (), s\<lparr>fifo_mode := Some ''bypass'', watermark_level := Some w, cs := 1,
                          bus_log := bus_log s @ [Write regaddr_fifoctl 0x00]\<rparr>)"
    using assms
    by (simp add: set_fifo_mode_def io_bind_def io_return_def write_reg_ok regaddr_fifoctl_def)
qed

theorem set_fifo_mode_control_byte_witness:
  "bus_fault env_quiet (length (bus_log s_init)) = None \<and> (0::int) \<le> 5 \<and> (5::int) \<le> 31
   \<and> bus_log (snd (set_fifo_mode env_quiet ''stream'' 5 s_init)) = [Write regaddr_fifoctl 0x85]
   \<and> bus_log (snd (set_fifo_mode env_quiet ''stream'' 16 s_init)) = [Write regaddr_fifoctl 0x90]
   \<and> bus_log (snd (set_fifo_mode env_quiet ''bypass'' 5 s_init)) = [Write regaddr_fifoctl 0x00]"
proof -
  have h: "bus_fault env_quiet (length (bus_log s_init)) = None" by (simp add: env_quiet_def)
  show ?thesis using h set_fifo_mode_control_byte [OF h, of 5]
    by (simp add: s_init_def)
qed

text \<open>
  Claim C3: a sampling rate that is not a key of \<open>device_sampling_rates\<close>, such as 500,
  makes \<open>set_sampling_rate\<close> raise (the \<open>KeyError\<close> of the table lookup is the driver's
  rejection of the value) before any bus transaction: the object and the bus log are
  left as they were.
\<close>

theorem set_sampling_rate_rejects:
  "(device_sampling_rates sr = None \<longrightarrow>
      set_sampling_rate env sr s = (Inl KeyError, s)
      \<and> bus_log (snd (set_sampling_rate env sr s)) = bus_log s)
   \<and> device_sampling_rates 500 = None"
  by (simp add: set_sampling_rate_def io_bind_def lookup_def device_sampling_rates_def)

theorem set_sampling_rate_rejects_witness:
  "device_sampling_rates 500 = None
   \<and> set_sampling_rate env_quiet 500 s_init = (Inl KeyError, s_init)
   \<and> bus_log (snd (set_sampling_rate env_quiet 500 s_init)) = []"
  using set_sampling_rate_rejects [of 500 env_quiet s_init] by (simp add: s_init_def)


section \<open>Acquisition on the data-ready flag\<close>

lemma frames_of_buffer:
  "length buf = 7 * m \<Longrightarrow>
     \<exists>frames. buf = concat frames \<and> length frames = m \<and> (\<forall>f \<in> set frames. length f = 7)"
proof (induction m arbitrary: buf)
  case 0
  then show ?case by (intro exI [of _ "[]"]) simp
next
  case (Suc m)
  have "length (drop 7 buf) = 7 * m" using Suc.prems by simp
  from Suc.IH [OF this] obtain frames where
    fr: "drop 7 buf = concat frames" "length frames = m" "\<forall>f \<in> set frames. length f = 7"
    by blast
  have "buf = concat (take 7 buf # frames)" using fr(1) by (simp flip: fr(1))
  moreover have "length (take 7 buf) = 7" using Suc.prems by simp
  ultimately show ?case using fr(2,3) by (intro exI [of _ "take 7 buf # frames"]) simp
qed

lemma length_strip_frames:
  assumes "length buf = 7 * m"
  shows "length (remove_first_bytes_from_bytearray_of_many_transactions buf) = 6 * m"
proof -
  from frames_of_buffer [OF assms] obtain frames where
    fr: "buf = concat frames" "length frames = m" "\<forall>f \<in> set frames. length f = 7"
    by blast
  have "\<forall>f \<in> set frames. length f = bytes_per_3axes + 1"
    using fr(3) by (simp add: bytes_per_3axes_def)
  then show ?thesis using strip_frames [of frames 0] length_concat_drop1 [of frames] fr
    by (simp add: remove_first_bytes_from_bytearray_of_many_transactions_def bytes_per_3axes_def)
qed



lemma int_trunc_three_halves:
  "0 \<le> n \<Longrightarrow> int_trunc (of_int n * (3 / 2)) = (3 * n) div 2"
proof -
  assume n: "0 \<le> n"
  have "(of_int n :: rat) * (3 / 2) = of_int (3 * n) / of_int 2" by simp
  then have "\<lfloor>(of_int n :: rat) * (3 / 2)\<rfloor> = (3 * n) div 2"
    by (simp only: floor_divide_of_int_eq)
  moreover have "(0::rat) \<le> of_int n * (3 / 2)" using n by simp
  ultimately show ?thesis by (simp add: int_trunc_def)
qed

lemma spi_readinto_Inr:
  "spi_readinto env buf i j w s = (Inr buf', s') \<Longrightarrow>
     length buf' = length buf
     \<and> s' = s\<lparr>bus_log := bus_log s @ [Read (min j (length buf) - min i (length buf)) w]\<rparr>"
  by (auto simp: spi_readinto_def Let_def split: option.splits)

lemma poll_and_fetch_shape:
  assumes "poll_and_fetch env (k, buf, T) s = (Inr (k', buf', T'), s')"
  shows "length buf' = length buf \<and> length T' = length T \<and> k \<le> k' \<and> k' \<le> k + 1
         \<and> sampling_rate s' = sampling_rate s \<and> power_mode s' = power_mode s"
  using assms
  by (auto simp: poll_and_fetch_def io_bind_def io_return_def io_of_def cs_value_def
      spi_read_def ticks_us_def set_item_def item_def dest!: spi_readinto_Inr
      split: option.splits sum.splits if_splits prod.splits)


lemma poll_loop_shape:
  "poll_loop fuel env n (k, buf, T) s = Some (Inr (k', buf', T'), s') \<Longrightarrow>
     length buf' = length buf \<and> length T' = length T \<and> \<not> int k' < n \<and> k \<le> k'
     \<and> (int k \<le> n \<longrightarrow> int k' = n)
     \<and> sampling_rate s' = sampling_rate s \<and> power_mode s' = power_mode s"
proof (induction fuel arbitrary: k buf T s)
  case 0
  then show ?case by (simp split: if_splits)
next
  case (Suc fuel)
  show ?case
  proof (cases "int k < n")
    case False
    then show ?thesis using Suc.prems by simp
  next
    case True
    then obtain k1 buf1 T1 s1 where
      step: "poll_and_fetch env (k, buf, T) s = (Inr (k1, buf1, T1), s1)"
      and rest: "poll_loop fuel env n (k1, buf1, T1) s1 = Some (Inr (k', buf', T'), s')"
      using Suc.prems by (auto split: prod.splits sum.splits)
    from poll_and_fetch_shape [OF step] Suc.IH [OF rest] True
    show ?thesis by auto
  qed
qed

lemma poll_and_fetch_idle:
  assumes "bus_fault env (length (bus_log s)) = None"
    and "drop_bit 7 (miso env (length (bus_log s)) 1) AND 1 = 0"
  shows "poll_and_fetch env (k, buf, T) s =
           (Inr (k, buf, T),
            s\<lparr>cs := 1, bus_log := bus_log s @ [Read 2 (regaddr_intsource OR read_mask)]\<rparr>)"
  using assms
  by (simp add: poll_and_fetch_def io_bind_def io_return_def io_of_def cs_value_def
      spi_read_def item_def)

lemma poll_and_fetch_sample:
  assumes "bus_fault env (length (bus_log s)) = None"
    and "bus_fault env (Suc (length (bus_log s))) = None"
    and "drop_bit 7 (miso env (length (bus_log s)) 1) AND 1 \<noteq> 0"
    and "k < length T"
  shows "\<exists>buf' T' s'. poll_and_fetch env (k, buf, T) s = (Inr (k + 1, buf', T'), s')
           \<and> length (bus_log s') = length (bus_log s) + 2
           \<and> nticks s' = nticks s + 1"
  using assms
  by (simp add: poll_and_fetch_def io_bind_def io_return_def io_of_def cs_value_def
      spi_read_def spi_readinto_def ticks_us_def set_item_def item_def Let_def)


lemma poll_loop_wait:
  assumes nf: "\<forall>t. bus_fault env t = None"
    and rdy: "drop_bit 7 (miso env (length (bus_log s) + d) 1) AND 1 \<noteq> 0"
    and k: "int k < n" "k < length T"
  shows "\<exists>fuel buf1 T1 s1.
           (\<forall>fuel'. poll_loop (fuel + fuel') env n (k, buf, T) s
                      = poll_loop fuel' env n (Suc k, buf1, T1) s1)
           \<and> nticks s1 = nticks s + 1 \<and> length T1 = length T"
  using rdy
proof (induction d arbitrary: s)
  case 0
  then have r: "drop_bit 7 (miso env (length (bus_log s)) 1) AND 1 \<noteq> 0" by simp
  from poll_and_fetch_sample [of env s k T buf, OF _ _ r k(2)] nf
  obtain buf' T' s' where
    step: "poll_and_fetch env (k, buf, T) s = (Inr (k + 1, buf', T'), s')"
    and s': "nticks s' = nticks s + 1"
    by auto
  have "\<forall>fuel'. poll_loop (1 + fuel') env n (k, buf, T) s
                  = poll_loop fuel' env n (Suc k, buf', T') s'"
    using step k(1) by simp
  moreover have "length T' = length T" using poll_and_fetch_shape [OF step] by simp
  ultimately show ?case using s' by blast
next
  case (Suc d)
  show ?case
  proof (cases "drop_bit 7 (miso env (length (bus_log s)) 1) AND 1 = 0")
    case False
    from poll_and_fetch_sample [of env s k T buf, OF _ _ False k(2)] nf
    obtain buf' T' s' where
      step: "poll_and_fetch env (k, buf, T) s = (Inr (k + 1, buf', T'), s')"
      and s': "nticks s' = nticks s + 1"
      by auto
    have "\<forall>fuel'. poll_loop (1 + fuel') env n (k, buf, T) s
                    = poll_loop fuel' env n (Suc k, buf', T') s'"
      using step k(1) by simp
    moreover have "length T' = length T" using poll_and_fetch_shape [OF step] by simp
    ultimately show ?thesis using s' by blast
  next
    case True
    define s1 where
      "s1 = s\<lparr>cs := 1, bus_log := bus_log s @ [Read 2 (regaddr_intsource OR read_mask)]\<rparr>"
    have step: "poll_and_fetch env (k, buf, T) s = (Inr (k, buf, T), s1)"
      unfolding s1_def using nf True by (intro poll_and_fetch_idle) simp_all
    have "drop_bit 7 (miso env (length (bus_log s1) + d) 1) AND 1 \<noteq> 0"
      using Suc.prems by (simp add: s1_def)
    from Suc.IH [OF this] obtain fuel buf1 T1 s2 where
      ih: "\<forall>fuel'. poll_loop (fuel + fuel') env n (k, buf, T) s1
                     = poll_loop fuel' env n (Suc k, buf1, T1) s2"
      and s2: "nticks s2 = nticks s1 + 1" "length T1 = length T"
      by blast
    have "\<forall>fuel'. poll_loop (Suc fuel + fuel') env n (k, buf, T) s
                    = poll_loop fuel' env n (Suc k, buf1, T1) s2"
      using step k(1) ih by simp
    moreover have "nticks s2 = nticks s + 1" using s2(1) by (simp add: s1_def)
    ultimately show ?thesis using s2(2) by blast
  qed
qed

lemma poll_loop_terminates:
  assumes nf: "\<forall>t. bus_fault env t = None"
    and fair: "\<forall>t. \<exists>j\<ge>t. drop_bit 7 (miso env j 1) AND 1 \<noteq> 0"
    and T: "nat n \<le> length T" and k: "k \<le> nat n"
  shows "\<exists>fuel buf' T' s'.
           poll_loop fuel env n (k, buf, T) s = Some (Inr (nat n, buf', T'), s')
           \<and> nticks s' = nticks s + (nat n - k)"
  using T k
proof (induction "nat n - k" arbitrary: k buf T s)
  case 0
  then have "\<not> int k < n" by linarith
  moreover have "k = nat n" using 0 by simp
  ultimately have "poll_loop 0 env n (k, buf, T) s = Some (Inr (nat n, buf, T), s)"
    by simp
  then show ?case using \<open>k = nat n\<close> by (metis add.right_neutral diff_self_eq_0)
next
  case (Suc m)
  then have lt: "int k < n" "k < length T" by linarith+
  from fair obtain j where j: "length (bus_log s) \<le> j"
    "drop_bit 7 (miso env j 1) AND 1 \<noteq> 0" by blast
  then have "drop_bit 7 (miso env (length (bus_log s) + (j - length (bus_log s))) 1) AND 1 \<noteq> 0"
    by simp
  from poll_loop_wait [OF nf this lt, of buf] obtain fuel1 buf1 T1 s1 where
    w: "\<forall>fuel'. poll_loop (fuel1 + fuel') env n (k, buf, T) s
                  = poll_loop fuel' env n (Suc k, buf1, T1) s1"
    and s1: "nticks s1 = nticks s + 1" "length T1 = length T"
    by blast
  have "m = nat n - Suc k" "nat n \<le> length T1" "Suc k \<le> nat n"
    using Suc.hyps(2) Suc.prems s1(2) by linarith+
  from Suc.hyps(1) [OF this, of buf1 s1] obtain fuel2 buf' T' s' where
    r: "poll_loop fuel2 env n (Suc k, buf1, T1) s1 = Some (Inr (nat n, buf', T'), s')"
    and s': "nticks s' = nticks s1 + (nat n - Suc k)"
    by blast
  have "poll_loop (fuel1 + fuel2) env n (k, buf, T) s = Some (Inr (nat n, buf', T'), s')"
    using w r by simp
  moreover have "nticks s' = nticks s + (nat n - k)"
    using s' s1(1) \<open>Suc k \<le> nat n\<close> by simp
  ultimately show ?case by blast
qed


lemma run_bind_InrE:
  assumes "run_bind m f s = Some (Inr v, s')"
  obtains u s1 where "m s = Some (Inr u, s1)" "f u s1 = Some (Inr v, s')"
  using assms by (auto simp: run_bind_def split: option.splits sum.splits prod.splits)

lemma lift_eq: "lift m s = Some r \<longleftrightarrow> m s = r"
  by (auto simp: lift_def)

lemma io_of_eq: "io_of r s = (Inr v, s') \<longleftrightarrow> r = Inr v \<and> s' = s"
  by (auto simp: io_of_def)

lemma bytearray_Inr: "bytearray m = Inr buf \<Longrightarrow> length buf = nat m"
  by (auto simp: bytearray_def split: if_splits)

lemma read_many_xyz_partial:
  assumes n: "0 \<le> n"
    and run: "read_many_xyz fuel env n s = Some (Inr (b, Tr), s')"
  shows "length b = 6 * nat n \<and> length Tr = nat n"
proof -
  let ?T0 = "replicate (nat (int_trunc (of_int n * (3 / 2)))) (0::int)"
  from run obtain buf0 s3 k buf T s4 where
    alloc: "bytearray ((int bytes_per_3axes + 1) * n) = Inr buf0"
    and loop: "poll_loop fuel env n (0, buf0, ?T0) s3 = Some (Inr (k, buf, T), s4)"
    and res: "b = remove_first_bytes_from_bytearray_of_many_transactions buf"
      "Tr = py_prefix T n"
    unfolding read_many_xyz_def Let_def
    by (auto elim!: run_bind_InrE simp: lift_eq io_of_eq io_return_def split: prod.splits)
  have l0: "length buf0 = 7 * nat n"
    using bytearray_Inr [OF alloc] n by (simp add: bytes_per_3axes_def nat_mult_distrib)
  have tr: "int_trunc (of_int n * (3 / 2)) = (3 * n) div 2"
    using n by (rule int_trunc_three_halves)
  have lT0: "nat n \<le> length ?T0"
    unfolding length_replicate tr using n by linarith
  from poll_loop_shape [OF loop] have "length buf = length buf0" "length T = length ?T0"
    by simp_all
  then have "length b = 6 * nat n" "length Tr = nat n"
    using l0 lT0 n by (simp_all add: res length_strip_frames py_prefix_def)
  then show ?thesis by simp
qed


lemma run_bind_lift_case:
  "run_bind (lift m) f s =
     (case m s of (Inl e, s') \<Rightarrow> Some (Inl e, s') | (Inr v, s') \<Rightarrow> f v s')"
  by (simp add: run_bind_def lift_def split: prod.splits sum.splits)

lemma read_ok:
  assumes "bus_fault env (length (bus_log s)) = None"
  shows "read env a nb s =
           (Inr (map (miso env (length (bus_log s))) [1..<Suc nb]),
            s\<lparr>cs := 1, bus_log := bus_log s @
               [Read (Suc nb) (if 1 < nb then (a OR read_mask) OR multibyte_mask
                               else a OR read_mask)]\<rparr>)"
  using assms
  by (simp add: read_def Let_def io_bind_def io_return_def cs_value_def spi_read_def
      drop_map drop_upt)

lemma clear_isdataready_ok:
  assumes "bus_fault env (length (bus_log s)) = None"
  shows "clear_isdataready env s =
           (Inr (), s\<lparr>cs := 1, bus_log := bus_log s @
               [Read 7 ((regaddr_acc OR read_mask) OR multibyte_mask)]\<rparr>)"
  by (simp add: clear_isdataready_def io_bind_def io_return_def read_ok [OF assms])

lemma read_many_xyz_returns:
  assumes n: "0 \<le> n"
    and nf: "\<forall>t. bus_fault env t = None"
    and fair: "\<forall>t. \<exists>j\<ge>t. drop_bit 7 (miso env j 1) AND 1 \<noteq> 0"
    and sr: "sampling_rate s = Some sr" "sr \<noteq> 0"
    and clk: "ticks env (nticks s + nat n + 1) \<noteq> ticks env (nticks s)"
  shows "\<exists>fuel b Tr s'. read_many_xyz fuel env n s = Some (Inr (b, Tr), s')"
proof -
  define T0 where "T0 = replicate (nat (int_trunc (of_int n * (3 / 2)))) (0::int)"
  define buf0 where "buf0 = replicate (nat ((int bytes_per_3axes + 1) * n)) (0::byte)"
  have alloc: "bytearray ((int bytes_per_3axes + 1) * n) = Inr buf0"
    using n by (simp add: bytearray_def bytes_per_3axes_def buf0_def)
  define x where "x = Read 7 ((regaddr_acc OR read_mask) OR multibyte_mask)"
  have clear: "clear_isdataready env s = (Inr (), s\<lparr>cs := 1, bus_log := bus_log s @ [x]\<rparr>)"
    using clear_isdataready_ok [of env s] nf by (simp add: x_def)
  define s2 where "s2 = s\<lparr>cs := 1, bus_log := bus_log s @ [x], nticks := Suc (nticks s)\<rparr>"
  have start: "ticks_us env (s\<lparr>cs := 1, bus_log := bus_log s @ [x]\<rparr>)
                 = (Inr (ticks env (nticks s)), s2)"
    by (simp add: ticks_us_def s2_def)
  have tr: "int_trunc (of_int n * (3 / 2)) = (3 * n) div 2"
    using n by (rule int_trunc_three_halves)
  have lT0: "nat n \<le> length T0"
    unfolding T0_def length_replicate tr using n by linarith
  from poll_loop_terminates [OF nf fair lT0, of 0 buf0 s2] obtain fuel buf' T' s4 where
    loop: "poll_loop fuel env n (0, buf0, T0) s2 = Some (Inr (nat n, buf', T'), s4)"
    and s4: "nticks s4 = nticks s2 + (nat n - 0)"
    by auto
  have sr4: "sampling_rate s4 = Some sr"
    using poll_loop_shape [OF loop] sr by (simp add: s2_def)
  have stop: "ticks_us env s4
                = (Inr (ticks env (nticks s + nat n + 1)), s4\<lparr>nticks := Suc (nticks s4)\<rparr>)"
    using s4 by (simp add: ticks_us_def s2_def)
  have attr: "getattr sampling_rate (s4\<lparr>nticks := Suc (nticks s4)\<rparr>)
                = (Inr sr, s4\<lparr>nticks := Suc (nticks s4)\<rparr>)"
    using sr4 by (simp add: getattr_def)
  have "read_many_xyz fuel env n s
          = Some (Inr (remove_first_bytes_from_bytearray_of_many_transactions buf',
                       py_prefix T' n), s4\<lparr>nticks := Suc (nticks s4)\<rparr>)"
    unfolding read_many_xyz_def Let_def T0_def [symmetric] buf0_def [symmetric]
    using clk sr(2)
    by (simp add: run_bind_lift_case io_of_def alloc clear start run_bind_def loop stop attr
        truediv_def io_return_def lift_def)
  then show ?thesis by blast
qed

section \<open>Acquisition from the FIFO\<close>

lemma fifo_count_le: "fifo_count env t \<le> 63"
proof -
  have "unat (miso env t 1 AND 0x3f) \<le> unat (0x3f :: byte)"
    by (rule word_and_le1 [THEN word_le_nat_alt [THEN iffD1]])
  then show ?thesis by (simp add: fifo_count_def)
qed

lemma drain_shape:
  "drain c env (k, buf) s = (Inr (k', buf'), s') \<Longrightarrow>
     k' = k + c \<and> length buf' = length buf
     \<and> power_mode s' = power_mode s \<and> sampling_rate s' = sampling_rate s
     \<and> nticks s' = nticks s"
proof (induction c arbitrary: k buf s)
  case 0
  then show ?case by (simp add: io_return_def)
next
  case (Suc c)
  from Suc.prems obtain buf1 s1 where
    fetch: "spi_readinto env buf (k * (bytes_per_3axes + 1))
              (k * (bytes_per_3axes + 1) + (bytes_per_3axes + 1))
              (regaddr_acc OR read_mask OR multibyte_mask) (s\<lparr>cs := 0\<rparr>) = (Inr buf1, s1)"
    and rest: "drain c env (k + 1, buf1) (s1\<lparr>cs := 1\<rparr>) = (Inr (k', buf'), s')"
    by (auto simp: io_bind_def cs_value_def split: prod.splits sum.splits)
  from spi_readinto_Inr [OF fetch] Suc.IH [OF rest]
  show ?case by simp
qed

lemma drain_ok:
  assumes nf: "\<forall>t. bus_fault env t = None"
  shows "\<exists>buf' s'. drain c env (k, buf) s = (Inr (k + c, buf'), s')
           \<and> length (bus_log s') = length (bus_log s) + c"
proof (induction c arbitrary: k buf s)
  case 0
  then show ?case by (simp add: io_return_def)
next
  case (Suc c)
  define buf1 s1 where
    "buf1 = fst (spi_readinto env buf (k * (bytes_per_3axes + 1))
              (k * (bytes_per_3axes + 1) + (bytes_per_3axes + 1))
              (regaddr_acc OR read_mask OR multibyte_mask) (s\<lparr>cs := 0\<rparr>))"
    and "s1 = snd (spi_readinto env buf (k * (bytes_per_3axes + 1))
              (k * (bytes_per_3axes + 1) + (bytes_per_3axes + 1))
              (regaddr_acc OR read_mask OR multibyte_mask) (s\<lparr>cs := 0\<rparr>))"
  have "\<exists>b. buf1 = Inr b" and l1: "length (bus_log s1) = Suc (length (bus_log s))"
    using nf by (simp_all add: buf1_def s1_def spi_readinto_def Let_def)
  then obtain b where b: "spi_readinto env buf (k * (bytes_per_3axes + 1))
              (k * (bytes_per_3axes + 1) + (bytes_per_3axes + 1))
              (regaddr_acc OR read_mask OR multibyte_mask) (s\<lparr>cs := 0\<rparr>) = (Inr b, s1)"
    by (metis buf1_def s1_def prod.collapse)
  from Suc.IH [of "k + 1" b "s1\<lparr>cs := 1\<rparr>"] obtain buf' s' where
    "drain c env (k + 1, b) (s1\<lparr>cs := 1\<rparr>) = (Inr (k + 1 + c, buf'), s')"
    "length (bus_log s') = length (bus_log (s1\<lparr>cs := 1\<rparr>)) + c"
    by blast
  then show ?case using b l1 by (simp add: io_bind_def cs_value_def)
qed

lemma get_nvalues_in_fifo_ok:
  assumes "bus_fault env (length (bus_log s)) = None"
  shows "get_nvalues_in_fifo env s =
           (Inr (fifo_count env (length (bus_log s))),
            s\<lparr>cs := 1, bus_log := bus_log s @ [Read 2 (regaddr_fifostatus OR read_mask)]\<rparr>)"
  by (simp add: get_nvalues_in_fifo_def io_bind_def io_return_def io_of_def item_def
      read_ok [OF assms] fifo_count_def)

lemma get_nvalues_in_fifo_shape:
  assumes "get_nvalues_in_fifo env s = (Inr c, s')"
  shows "c = fifo_count env (length (bus_log s))
         \<and> s' = s\<lparr>cs := 1, bus_log := bus_log s @ [Read 2 (regaddr_fifostatus OR read_mask)]\<rparr>"
proof (cases "bus_fault env (length (bus_log s))")
  case None
  then show ?thesis using assms by (simp add: get_nvalues_in_fifo_ok)
next
  case (Some e)
  then have "fst (get_nvalues_in_fifo env s) = Inl e"
    by (simp add: get_nvalues_in_fifo_def read_def io_bind_def cs_value_def spi_read_def)
  then show ?thesis using assms by simp
qed

lemma fifo_iteration_shape:
  assumes "fifo_iteration env (k, buf) s = (Inr (k', buf'), s')"
  shows "k' = k + fifo_count env (length (bus_log s)) \<and> length buf' = length buf
         \<and> power_mode s' = power_mode s \<and> sampling_rate s' = sampling_rate s
         \<and> nticks s' = nticks s"
proof -
  from assms obtain c s1 where
    c: "get_nvalues_in_fifo env s = (Inr c, s1)"
    and d: "drain c env (k, buf) s1 = (Inr (k', buf'), s')"
    by (auto simp: fifo_iteration_def io_bind_def split: prod.splits sum.splits)
  from get_nvalues_in_fifo_shape [OF c] drain_shape [OF d]
  show ?thesis by simp
qed

lemma fifo_iteration_ok:
  assumes nf: "\<forall>t. bus_fault env t = None"
  shows "\<exists>buf' s'. fifo_iteration env (k, buf) s
                     = (Inr (k + fifo_count env (length (bus_log s)), buf'), s')
           \<and> length (bus_log s') = Suc (length (bus_log s)) + fifo_count env (length (bus_log s))"
proof -
  define s1 where
    "s1 = s\<lparr>cs := 1, bus_log := bus_log s @ [Read 2 (regaddr_fifostatus OR read_mask)]\<rparr>"
  have c: "get_nvalues_in_fifo env s = (Inr (fifo_count env (length (bus_log s))), s1)"
    unfolding s1_def using nf by (intro get_nvalues_in_fifo_ok) simp
  from drain_ok [OF nf, of "fifo_count env (length (bus_log s))" k buf s1]
  obtain buf' s' where
    "drain (fifo_count env (length (bus_log s))) env (k, buf) s1
       = (Inr (k + fifo_count env (length (bus_log s)), buf'), s')"
    "length (bus_log s') = length (bus_log s1) + fifo_count env (length (bus_log s))"
    by blast
  then show ?thesis using c by (simp add: fifo_iteration_def io_bind_def s1_def)
qed


lemma fifo_loop_shape:
  "fifo_loop fuel env n (k, buf) s = Some (Inr (k', buf'), s') \<Longrightarrow>
     \<not> int k' < n \<and> k \<le> k' \<and> length buf' = length buf
     \<and> power_mode s' = power_mode s \<and> sampling_rate s' = sampling_rate s
     \<and> nticks s' = nticks s"
proof (induction fuel arbitrary: k buf s)
  case 0
  then show ?case by (simp split: if_splits)
next
  case (Suc fuel)
  show ?case
  proof (cases "int k < n")
    case False
    then show ?thesis using Suc.prems by simp
  next
    case True
    then obtain k1 buf1 s1 where
      step: "fifo_iteration env (k, buf) s = (Inr (k1, buf1), s1)"
      and rest: "fifo_loop fuel env n (k1, buf1) s1 = Some (Inr (k', buf'), s')"
      using Suc.prems by (auto split: prod.splits sum.splits)
    from fifo_iteration_shape [OF step] Suc.IH [OF rest]
    show ?thesis by simp
  qed
qed

lemma fifo_loop_overshoot:
  assumes cap: "\<forall>t. fifo_count env t \<le> c" and c: "0 < c"
  shows "fifo_loop fuel env n (k, buf) s = Some (Inr (k', buf'), s') \<Longrightarrow>
           k \<le> nat n + (c - 1) \<Longrightarrow> k' \<le> nat n + (c - 1)"
proof (induction fuel arbitrary: k buf s)
  case 0
  then show ?case by (simp split: if_splits)
next
  case (Suc fuel)
  show ?case
  proof (cases "int k < n")
    case False
    then show ?thesis using Suc.prems by simp
  next
    case True
    then obtain k1 buf1 s1 where
      step: "fifo_iteration env (k, buf) s = (Inr (k1, buf1), s1)"
      and rest: "fifo_loop fuel env n (k1, buf1) s1 = Some (Inr (k', buf'), s')"
      using Suc.prems by (auto split: prod.splits sum.splits)
    have "k1 = k + fifo_count env (length (bus_log s))"
      using fifo_iteration_shape [OF step] by simp
    moreover have "fifo_count env (length (bus_log s)) \<le> c" using cap by simp
    ultimately have "k1 \<le> nat n + (c - 1)" using True c by linarith
    from Suc.IH [OF rest this] show ?thesis .
  qed
qed

text \<open>Without any assumption on the device, the mask \<open>0x3f\<close> bounds a reported count by 63.\<close>

lemma fifo_loop_overshoot_mask:
  assumes "fifo_loop fuel env n (0, buf) s = Some (Inr (k, buf'), s')"
  shows "k \<le> nat n + 62"
proof -
  have "\<forall>t. fifo_count env t \<le> 63" by (simp add: fifo_count_le)
  from fifo_loop_overshoot [OF this _ assms] show ?thesis by simp
qed

lemma fifo_loop_wait:
  assumes nf: "\<forall>t. bus_fault env t = None"
    and cnt: "0 < fifo_count env (length (bus_log s) + d)"
    and k: "int k < n"
  shows "\<exists>fuel k1 buf1 s1. k < k1
           \<and> (\<forall>fuel'. fifo_loop (fuel + fuel') env n (k, buf) s
                        = fifo_loop fuel' env n (k1, buf1) s1)"
  using cnt
proof (induction d arbitrary: buf s)
  case 0
  from fifo_iteration_ok [OF nf, of k buf s] obtain buf' s' where
    step: "fifo_iteration env (k, buf) s
             = (Inr (k + fifo_count env (length (bus_log s)), buf'), s')"
    by blast
  have "\<forall>fuel'. fifo_loop (1 + fuel') env n (k, buf) s
                  = fifo_loop fuel' env n (k + fifo_count env (length (bus_log s)), buf') s'"
    using step k by simp
  moreover have "k < k + fifo_count env (length (bus_log s))" using 0 by simp
  ultimately show ?case by blast
next
  case (Suc d)
  from fifo_iteration_ok [OF nf, of k buf s] obtain buf' s' where
    step: "fifo_iteration env (k, buf) s
             = (Inr (k + fifo_count env (length (bus_log s)), buf'), s')"
    and l: "length (bus_log s')
              = Suc (length (bus_log s)) + fifo_count env (length (bus_log s))"
    by blast
  have one: "\<forall>fuel'. fifo_loop (1 + fuel') env n (k, buf) s
                  = fifo_loop fuel' env n (k + fifo_count env (length (bus_log s)), buf') s'"
    using step k by simp
  show ?case
  proof (cases "fifo_count env (length (bus_log s)) = 0")
    case False
    then have "k < k + fifo_count env (length (bus_log s))" by simp
    then show ?thesis using one by blast
  next
    case True
    then have "0 < fifo_count env (length (bus_log s') + d)" using Suc.prems l by simp
    from Suc.IH [OF this, of buf'] obtain fuel k1 buf1 s1 where
      ih: "k < k1" "\<forall>fuel'. fifo_loop (fuel + fuel') env n (k, buf') s'
                     = fifo_loop fuel' env n (k1, buf1) s1"
      by blast
    have "\<forall>fuel'. fifo_loop (Suc fuel + fuel') env n (k, buf) s
                    = fifo_loop fuel' env n (k1, buf1) s1"
      using step k ih(2) True by simp
    then show ?thesis using ih(1) by blast
  qed
qed

lemma fifo_loop_terminates:
  assumes nf: "\<forall>t. bus_fault env t = None"
    and fair: "\<forall>t. \<exists>j\<ge>t. 0 < fifo_count env j"
  shows "\<exists>fuel k' buf' s'. fifo_loop fuel env n (k, buf) s = Some (Inr (k', buf'), s')"
proof (induction "nat n - k" arbitrary: k buf s rule: less_induct)
  case less
  show ?case
  proof (cases "int k < n")
    case False
    then have "fifo_loop 0 env n (k, buf) s = Some (Inr (k, buf), s)" by simp
    then show ?thesis by blast
  next
    case True
    from fair obtain j where j: "length (bus_log s) \<le> j" "0 < fifo_count env j" by blast
    then have "0 < fifo_count env (length (bus_log s) + (j - length (bus_log s)))" by simp
    from fifo_loop_wait [OF nf this True, of buf] obtain fuel1 k1 buf1 s1 where
      w: "k < k1" "\<forall>fuel'. fifo_loop (fuel1 + fuel') env n (k, buf) s
                    = fifo_loop fuel' env n (k1, buf1) s1"
      by blast
    have "nat n - k1 < nat n - k" using w(1) True by linarith
    from less [OF this, of buf1 s1] obtain fuel2 k' buf' s' where
      "fifo_loop fuel2 env n (k1, buf1) s1 = Some (Inr (k', buf'), s')"
      by blast
    then have "fifo_loop (fuel1 + fuel2) env n (k, buf) s = Some (Inr (k', buf'), s')"
      using w(2) by simp
    then show ?thesis by blast
  qed
qed

section \<open>Continuous readings\<close>

lemma write_reg_Inr:
  "write_reg env a b s = (Inr (), s') \<Longrightarrow>
     s' = s\<lparr>cs := 1, bus_log := bus_log s @ [Write a b]\<rparr>"
  by (auto simp: write_reg_def io_bind_def cs_value_def spi_write_def
      split: if_splits option.splits)

lemma set_power_mode_Inr:
  assumes "set_power_mode env m s = (Inr (), s')"
  shows "\<exists>b. power_modes m = Some b
           \<and> s' = s\<lparr>cs := 1, bus_log := bus_log s @ [Write regaddr_pwr b],
                     power_mode := Some m\<rparr>"
  using assms
  by (auto simp: set_power_mode_def io_bind_def lookup_def
      split: option.splits prod.splits sum.splits dest!: write_reg_Inr)

lemma set_power_mode_standby:
  assumes "set_power_mode env ''standby'' s = (Inr (), s')"
  shows "power_mode s' = Some ''standby'' \<and> bus_log s' = bus_log s @ [Write regaddr_pwr 0]"
  using set_power_mode_Inr [OF assms] by (auto simp: power_modes_def)


lemma bytearray_three_halves:
  assumes "bytearray (int_trunc (of_int m * (3 / 2))) = Inr buf0"
  shows "0 \<le> m \<and> length buf0 = nat ((3 * m) div 2)"
proof -
  have "0 \<le> m"
  proof (rule ccontr)
    assume "\<not> 0 \<le> m"
    then have "m \<le> - 1" by simp
    then have "(of_int m :: rat) \<le> - 1" by (metis of_int_le_iff of_int_minus of_int_1)
    then have x: "(of_int m :: rat) * (3 / 2) \<le> - 1" by simp
    then have "\<lceil>(of_int m :: rat) * (3 / 2)\<rceil> < 0" by (simp add: ceiling_less_iff)
    moreover have "\<not> (0::rat) \<le> of_int m * (3 / 2)" using x by simp
    ultimately have "int_trunc (of_int m * (3 / 2)) < 0" by (simp add: int_trunc_def)
    then show False using assms by (simp add: bytearray_def)
  qed
  moreover from this have "int_trunc (of_int m * (3 / 2)) = (3 * m) div 2"
    by (rule int_trunc_three_halves)
  ultimately show ?thesis using bytearray_Inr [OF assms] by simp
qed



lemma set_fifo_mode_ok:
  assumes nf: "\<forall>t. bus_fault env t = None"
    and m: "mode = ''bypass'' \<or> 0 \<le> wm \<and> wm \<le> 31"
  shows "\<exists>s'. set_fifo_mode env mode wm s = (Inr (), s')
           \<and> nticks s' = nticks s \<and> sampling_rate s' = sampling_rate s"
proof (cases "mode = ''bypass''")
  case True
  then show ?thesis using nf
    by (simp add: set_fifo_mode_def io_bind_def io_return_def write_reg_ok regaddr_fifoctl_def)
next
  case False
  then have "stream_byte wm = Inr (128 + wm)" using m by (simp add: stream_byte_5bit)
  then show ?thesis using nf False m
    by (simp add: set_fifo_mode_def io_bind_def io_of_def write_reg_ok regaddr_fifoctl_def)
qed

lemma set_power_mode_ok:
  assumes nf: "\<forall>t. bus_fault env t = None"
    and m: "mode = ''standby'' \<or> mode = ''measure''"
  shows "\<exists>s'. set_power_mode env mode s = (Inr (), s')
           \<and> nticks s' = nticks s \<and> sampling_rate s' = sampling_rate s"
  using nf m
  by (auto simp: set_power_mode_def io_bind_def lookup_def power_modes_def write_reg_ok
      regaddr_pwr_def)

lemma clear_fifo_ok:
  assumes nf: "\<forall>t. bus_fault env t = None"
  shows "\<exists>s'. clear_fifo env s = (Inr (), s')
           \<and> nticks s' = nticks s \<and> sampling_rate s' = sampling_rate s"
proof -
  from set_fifo_mode_ok [OF nf, of "''bypass''" 16 s] obtain s1 where
    a: "set_fifo_mode env ''bypass'' 16 s = (Inr (), s1)"
    "nticks s1 = nticks s" "sampling_rate s1 = sampling_rate s" by auto
  from set_fifo_mode_ok [OF nf, of "''stream''" 16 s1] obtain s2 where
    b: "set_fifo_mode env ''stream'' 16 s1 = (Inr (), s2)"
    "nticks s2 = nticks s1" "sampling_rate s2 = sampling_rate s1" by auto
  show ?thesis using a b by (simp add: clear_fifo_def io_bind_def)
qed



section \<open>Exit paths of the continuous readings\<close>

lemma poll_and_fetch_no_error:
  assumes nf: "\<forall>t. bus_fault env t = None" and k: "k < length T"
  shows "\<exists>st' s'. poll_and_fetch env (k, buf, T) s = (Inr st', s')"
proof (cases "drop_bit 7 (miso env (length (bus_log s)) 1) AND 1 = 0")
  case True
  then show ?thesis using poll_and_fetch_idle [of env s k buf T] nf by simp
next
  case False
  from poll_and_fetch_sample [of env s k T buf, OF _ _ False k] nf
  show ?thesis by auto
qed

lemma poll_loop_no_error:
  assumes nf: "\<forall>t. bus_fault env t = None"
  shows "nat n \<le> length T \<Longrightarrow> poll_loop fuel env n (k, buf, T) s = Some (r, s')
           \<Longrightarrow> \<exists>st. r = Inr st"
proof (induction fuel arbitrary: k buf T s)
  case 0
  then show ?case by (auto split: if_splits)
next
  case (Suc fuel)
  show ?case
  proof (cases "int k < n")
    case False
    then show ?thesis using Suc.prems by auto
  next
    case True
    then have "k < length T" using Suc.prems(1) by linarith
    from poll_and_fetch_no_error [OF nf this, of buf s] obtain k1 buf1 T1 s1 where
      step: "poll_and_fetch env (k, buf, T) s = (Inr (k1, buf1, T1), s1)"
      by (metis prod_cases3)
    then have rest: "poll_loop fuel env n (k1, buf1, T1) s1 = Some (r, s')"
      using Suc.prems(2) True by simp
    have "nat n \<le> length T1" using poll_and_fetch_shape [OF step] Suc.prems(1) by simp
    from Suc.IH [OF this rest] show ?thesis .
  qed
qed

lemma fifo_loop_no_error:
  assumes nf: "\<forall>t. bus_fault env t = None"
  shows "fifo_loop fuel env n (k, buf) s = Some (r, s') \<Longrightarrow> \<exists>st. r = Inr st"
proof (induction fuel arbitrary: k buf s)
  case 0
  then show ?case by (auto split: if_splits)
next
  case (Suc fuel)
  show ?case
  proof (cases "int k < n")
    case False
    then show ?thesis using Suc.prems by auto
  next
    case True
    from fifo_iteration_ok [OF nf, of k buf s] obtain k1 buf1 s1 where
      step: "fifo_iteration env (k, buf) s = (Inr (k1, buf1), s1)"
      by blast
    then have rest: "fifo_loop fuel env n (k1, buf1) s1 = Some (r, s')"
      using Suc.prems True by simp
    from Suc.IH [OF rest] show ?thesis .
  qed
qed

lemma read_continuos_xyz_exit:
  assumes nf: "\<forall>t. bus_fault env t = None"
    and run: "read_continuos_xyz fuel env acquisition_time s = Some (res, s')"
  shows "s' = s \<or> power_mode s' = Some ''standby'' \<and> (\<exists>l. bus_log s' = l @ [Write regaddr_pwr 0])"
proof (cases "sampling_rate s")
  case None
  then show ?thesis using run
    by (simp add: read_continuos_xyz_def run_bind_lift_case getattr_def)
next
  case (Some sr)
  note sr = this
  show ?thesis
  proof (cases "g_range s")
    case None
    then show ?thesis using run sr
      by (simp add: read_continuos_xyz_def run_bind_lift_case getattr_def)
  next
    case (Some g)
    define N where "N = int_trunc (py_mul env acquisition_time sr)"
    define T0 where "T0 = replicate (nat (int_trunc (of_int N * (3 / 2)))) (0::int)"
    have a1: "getattr sampling_rate s = (Inr sr, s)" "getattr g_range s = (Inr g, s)"
      using sr Some by (simp_all add: getattr_def)
    show ?thesis
    proof (cases "bytearray (int_trunc (of_int ((int bytes_per_3axes + 1) * N) * (3 / 2)))")
      case (Inl e)
      have "read_continuos_xyz fuel env acquisition_time s = Some (Inl e, s)"
        unfolding read_continuos_xyz_def Let_def run_bind_lift_case a1 prod.case sum.case
          N_def [symmetric] io_of_def Inl
        by simp
      then show ?thesis using run by simp
    next
      case (Inr buf0)
      have "0 \<le> (int bytes_per_3axes + 1) * N"
        using bytearray_three_halves [OF Inr] by simp
      then have N: "0 \<le> N" by (simp add: bytes_per_3axes_def zero_le_mult_iff)
      then have tr: "int_trunc (of_int N * (3 / 2)) = (3 * N) div 2"
        by (rule int_trunc_three_halves)
      have lT0: "nat N \<le> length T0"
        unfolding T0_def length_replicate tr using N by linarith
      from set_fifo_mode_ok [OF nf, of "''bypass''" 16 s] obtain s1 where
        s1: "set_fifo_mode env ''bypass'' 16 s = (Inr (), s1)" by auto
      from set_power_mode_ok [OF nf, of "''measure''" s1] obtain s2 where
        s2: "set_power_mode env ''measure'' s1 = (Inr (), s2)" by auto
      have pre: "read_continuos_xyz fuel env acquisition_time s
        = run_bind (poll_loop fuel env N (0, buf0, T0))
           (\<lambda>(n_act_meas, buf, T).
              run_bind (lift (set_power_mode env ''standby''))
               (\<lambda>_. run_bind (lift (io_of (item (py_prefix T (int n_act_meas)) (- 1))))
                 (\<lambda>t_last. run_bind (lift (io_of (item (py_prefix T (int n_act_meas)) 0)))
                   (\<lambda>t_first. run_bind
                      (lift (io_of (truediv (of_nat n_act_meas)
                                      (of_int (t_last - t_first) / 1000000))))
                      (\<lambda>_. lift (io_return
                         (py_prefix (remove_first_bytes_from_bytearray_of_many_transactions buf)
                            (N * int bytes_per_3axes),
                          py_prefix T (int n_act_meas)))))))) s2"
        unfolding read_continuos_xyz_def Let_def run_bind_lift_case a1 prod.case sum.case
          N_def [symmetric] io_of_def Inr T0_def [symmetric] s1 s2
        by (simp only: run_bind_lift_case io_of_def)
      from run obtain r3 s3 where
        loop: "poll_loop fuel env N (0, buf0, T0) s2 = Some (r3, s3)"
        unfolding pre by (auto simp: run_bind_def split: option.splits)
      from poll_loop_no_error [OF nf lT0 loop] obtain k buf T where
        r3: "r3 = Inr (k, buf, T)" by (metis prod_cases3)
      from set_power_mode_ok [OF nf, of "''standby''" s3] obtain s4 where
        s4: "set_power_mode env ''standby'' s3 = (Inr (), s4)" by auto
      have "s' = s4"
        using run unfolding pre
        by (auto simp: run_bind_def loop r3 run_bind_lift_case s4 io_of_def lift_def
            io_return_def split: sum.splits)
      then show ?thesis using set_power_mode_standby [OF s4] by simp
    qed
  qed
qed


lemma read_continuos_xyz_fromfifo_exit:
  assumes nf: "\<forall>t. bus_fault env t = None"
    and run: "read_continuos_xyz_fromfifo fuel env acquisition_time s = Some (res, s')"
  shows "s' = s \<or> power_mode s' = Some ''standby'' \<and> (\<exists>l. bus_log s' = l @ [Write regaddr_pwr 0])"
proof (cases "sampling_rate s")
  case None
  then show ?thesis using run
    by (simp add: read_continuos_xyz_fromfifo_def run_bind_lift_case getattr_def)
next
  case (Some sr)
  note sr = this
  show ?thesis
  proof (cases "g_range s")
    case None
    then show ?thesis using run sr
      by (simp add: read_continuos_xyz_fromfifo_def run_bind_lift_case getattr_def)
  next
    case (Some g)
    define N where "N = int_trunc (py_mul env acquisition_time sr)"
    have a1: "getattr sampling_rate s = (Inr sr, s)" "getattr g_range s = (Inr g, s)"
      using sr Some by (simp_all add: getattr_def)
    show ?thesis
    proof (cases "bytearray (int_trunc (of_int ((int bytes_per_3axes + 1) * N) * (3 / 2)))")
      case (Inl e)
      have "read_continuos_xyz_fromfifo fuel env acquisition_time s = Some (Inl e, s)"
        unfolding read_continuos_xyz_fromfifo_def Let_def run_bind_lift_case a1 prod.case
          sum.case N_def [symmetric] io_of_def Inl
        by simp
      then show ?thesis using run by simp
    next
      case (Inr buf0)
      from set_fifo_mode_ok [OF nf, of "''stream''" 16 s] obtain s1 where
        s1: "set_fifo_mode env ''stream'' 16 s = (Inr (), s1)" by auto
      from set_power_mode_ok [OF nf, of "''measure''" s1] obtain s2 where
        s2: "set_power_mode env ''measure'' s1 = (Inr (), s2)" by auto
      from clear_fifo_ok [OF nf, of s2] obtain s3 where
        s3: "clear_fifo env s2 = (Inr (), s3)" by auto
      define s4 where "s4 = s3\<lparr>nticks := Suc (nticks s3)\<rparr>"
      define t_start where "t_start = ticks env (nticks s3)"
      have start: "ticks_us env s3 = (Inr t_start, s4)"
        by (simp add: ticks_us_def s4_def t_start_def)
      have pre: "read_continuos_xyz_fromfifo fuel env acquisition_time s
        = run_bind (fifo_loop fuel env N (0, buf0))
           (\<lambda>(n_act_meas, buf).
              run_bind (lift (ticks_us env))
               (\<lambda>t_stop. run_bind (lift (set_power_mode env ''standby''))
                 (\<lambda>_. run_bind (lift (io_of (collect (map (\<lambda>i. truediv (of_nat i) sr)
                                                        [0..<nat N]))))
                   (\<lambda>T. run_bind
                      (lift (io_of (truediv (of_nat n_act_meas)
                                      (of_int (t_stop - t_start) / 1000000))))
                      (\<lambda>_. lift (io_return
                         (py_prefix (remove_first_bytes_from_bytearray_of_many_transactions buf)
                            (N * int bytes_per_3axes), T))))))) s4"
        unfolding read_continuos_xyz_fromfifo_def Let_def run_bind_lift_case a1 prod.case
          sum.case N_def [symmetric] io_of_def Inr s1 s2 s3 start
        by (simp only: run_bind_lift_case io_of_def)
      from run obtain r5 s5 where
        loop: "fifo_loop fuel env N (0, buf0) s4 = Some (r5, s5)"
        unfolding pre by (auto simp: run_bind_def split: option.splits)
      from fifo_loop_no_error [OF nf loop] obtain k buf where
        r5: "r5 = Inr (k, buf)" by (metis surj_pair)
      define s6 where "s6 = s5\<lparr>nticks := Suc (nticks s5)\<rparr>"
      have stop: "ticks_us env s5 = (Inr (ticks env (nticks s5)), s6)"
        by (simp add: ticks_us_def s6_def)
      from set_power_mode_ok [OF nf, of "''standby''" s6] obtain s7 where
        s7: "set_power_mode env ''standby'' s6 = (Inr (), s7)" by auto
      have "s' = s7"
        using run unfolding pre
        by (auto simp: run_bind_def loop r5 run_bind_lift_case stop s7 io_of_def lift_def
            io_return_def split: sum.splits)
      then show ?thesis using set_power_mode_standby [OF s7] by simp
    qed
  qed
qed

text \<open>
  Claim C5: for \<open>n \<ge> 0\<close>, whenever \<open>read_many_xyz(n)\<close> returns, the buffer it returns has
  exactly \<open>6n\<close> bytes and the timestamp list exactly \<open>n\<close> entries, though the list was
  allocated with \<open>int(n * 1.5)\<close> entries. And it does return when no bus transaction
  raises, the device sets its data-ready bit again and again, \<open>sampling_rate\<close> has been
  set, and the clock has moved between the two readings of the diagnostics.
\<close>

theorem read_many_xyz_lengths:
  assumes "0 \<le> n"
  shows "(\<forall>fuel b Tr s'. read_many_xyz fuel env n s = Some (Inr (b, Tr), s')
            \<longrightarrow> length b = 6 * nat n \<and> length Tr = nat n)
       \<and> ((\<forall>t. bus_fault env t = None)
            \<and> (\<forall>t. \<exists>j\<ge>t. drop_bit 7 (miso env j 1) AND 1 \<noteq> 0)
            \<and> sampling_rate s = Some sr \<and> sr \<noteq> 0
            \<and> ticks env (nticks s + nat n + 1) \<noteq> ticks env (nticks s)
          \<longrightarrow> (\<exists>fuel b Tr s'. read_many_xyz fuel env n s = Some (Inr (b, Tr), s')
                 \<and> length b = 6 * nat n \<and> length Tr = nat n))"
proof (intro conjI allI impI)
  fix fuel b Tr s'
  assume "read_many_xyz fuel env n s = Some (Inr (b, Tr), s')"
  from read_many_xyz_partial [OF assms this]
  show "length b = 6 * nat n" "length Tr = nat n" by simp_all
next
  assume h: "(\<forall>t. bus_fault env t = None)
            \<and> (\<forall>t. \<exists>j\<ge>t. drop_bit 7 (miso env j 1) AND 1 \<noteq> 0)
            \<and> sampling_rate s = Some sr \<and> sr \<noteq> 0
            \<and> ticks env (nticks s + nat n + 1) \<noteq> ticks env (nticks s)"
  then obtain fuel b Tr s' where
    run: "read_many_xyz fuel env n s = Some (Inr (b, Tr), s')"
    using read_many_xyz_returns [OF assms, of env s sr] by blast
  from read_many_xyz_partial [OF assms run] run
  show "\<exists>fuel b Tr s'. read_many_xyz fuel env n s = Some (Inr (b, Tr), s')
          \<and> length b = 6 * nat n \<and> length Tr = nat n"
    by blast
qed

theorem read_many_xyz_lengths_witness:
  "(0::int) \<le> 2
   \<and> (\<forall>t. bus_fault env_ready t = None)
   \<and> (\<forall>t. \<exists>j\<ge>t. drop_bit 7 (miso env_ready j 1) AND 1 \<noteq> 0)
   \<and> sampling_rate s_configured = Some 100 \<and> (100::rat) \<noteq> 0
   \<and> ticks env_ready (nticks s_configured + nat 2 + 1) \<noteq> ticks env_ready (nticks s_configured)
   \<and> map_option fst (read_many_xyz 2 env_ready 2 s_configured)
       = Some (Inr (replicate 12 0x80, [10, 20]))
   \<and> (\<exists>fuel b Tr s'. read_many_xyz fuel env_ready 2 s_configured = Some (Inr (b, Tr), s')
        \<and> length b = 12 \<and> length Tr = 2)"
proof -
  have h: "(\<forall>t. bus_fault env_ready t = None)
            \<and> (\<forall>t. \<exists>j\<ge>t. drop_bit 7 (miso env_ready j 1) AND 1 \<noteq> 0)
            \<and> sampling_rate s_configured = Some 100 \<and> (100::rat) \<noteq> 0
            \<and> ticks env_ready (nticks s_configured + nat 2 + 1)
                \<noteq> ticks env_ready (nticks s_configured)"
    by (auto simp: env_ready_def s_configured_def)
  have run: "map_option fst (read_many_xyz 2 env_ready 2 s_configured)
       = Some (Inr (replicate 12 0x80, [10, 20]))"
    by code_simp
  have n: "(0::int) \<le> 2" by simp
  from read_many_xyz_lengths [OF n, of env_ready s_configured 100] h
  have "\<exists>fuel b Tr s'. read_many_xyz fuel env_ready 2 s_configured = Some (Inr (b, Tr), s')
          \<and> length b = 12 \<and> length Tr = 2"
    by simp
  then show ?thesis using h run by simp
qed


text \<open>
  Claim C4: in \<open>read_continuos_xyz_fromfifo\<close> the accepted count never decreases from one
  poll iteration to the next (an iteration adds the reported FIFO count to it), and the
  loop, which is run with the target \<open>n = n_exp_meas\<close>, is over as soon as the count is not
  below the target: it then makes no further transaction, and a loop that ends ends with
  the count at or above the target. The loop does end when no bus transaction raises and
  the device reports a non-empty FIFO again and again.
\<close>

theorem fifo_loop_monotone_until_target:
  "(fifo_iteration env (k, buf) s = (Inr (k1, buf1), s1)
      \<longrightarrow> k \<le> k1 \<and> k1 = k + fifo_count env (length (bus_log s)))
   \<and> (\<not> int k < n \<longrightarrow> fifo_loop fuel env n (k, buf) s = Some (Inr (k, buf), s))
   \<and> (fifo_loop fuel env n (k, buf) s = Some (Inr (k2, buf2), s2)
        \<longrightarrow> k \<le> k2 \<and> \<not> int k2 < n)
   \<and> ((\<forall>t. bus_fault env t = None) \<and> (\<forall>t. \<exists>j\<ge>t. 0 < fifo_count env j)
        \<longrightarrow> (\<exists>fuel' k3 buf3 s3. fifo_loop fuel' env n (k, buf) s = Some (Inr (k3, buf3), s3)
               \<and> k \<le> k3 \<and> \<not> int k3 < n))"
proof (intro conjI impI)
  assume "fifo_iteration env (k, buf) s = (Inr (k1, buf1), s1)"
  from fifo_iteration_shape [OF this]
  show "k \<le> k1" "k1 = k + fifo_count env (length (bus_log s))" by simp_all
next
  assume "\<not> int k < n"
  then show "fifo_loop fuel env n (k, buf) s = Some (Inr (k, buf), s)"
    by (cases fuel) simp_all
next
  assume "fifo_loop fuel env n (k, buf) s = Some (Inr (k2, buf2), s2)"
  from fifo_loop_shape [OF this] show "k \<le> k2" "\<not> int k2 < n" by simp_all
next
  assume "(\<forall>t. bus_fault env t = None) \<and> (\<forall>t. \<exists>j\<ge>t. 0 < fifo_count env j)"
  then obtain fuel' k3 buf3 s3 where
    run: "fifo_loop fuel' env n (k, buf) s = Some (Inr (k3, buf3), s3)"
    using fifo_loop_terminates [of env n k buf s] by blast
  from fifo_loop_shape [OF run] run
  show "\<exists>fuel' k3 buf3 s3. fifo_loop fuel' env n (k, buf) s = Some (Inr (k3, buf3), s3)
          \<and> k \<le> k3 \<and> \<not> int k3 < n"
    by blast
qed

theorem fifo_loop_monotone_until_target_witness:
  "(\<forall>t. bus_fault env_two t = None) \<and> (\<forall>t. \<exists>j\<ge>t. 0 < fifo_count env_two j)
   \<and> \<not> int 3 < 2
   \<and> fifo_loop 0 env_two 2 (3, []) s_configured = Some (Inr (3, []), s_configured)
   \<and> map_option (map_sum id fst \<circ> fst)
        (fifo_loop 2 env_two 3 (0, replicate 10 0) s_configured) = Some (Inr 4)
   \<and> (\<exists>fuel' k3 buf3 s3.
         fifo_loop fuel' env_two 3 (0, replicate 10 0) s_configured
           = Some (Inr (k3, buf3), s3) \<and> 0 \<le> k3 \<and> \<not> int k3 < 3)"
proof -
  have c: "fifo_count env_two j = 2" for j
    by (simp add: env_two_def fifo_count_def)
  have h1: "\<forall>t. bus_fault env_two t = None" by (simp add: env_two_def)
  have h2: "\<forall>t. \<exists>j\<ge>t. 0 < fifo_count env_two j"
  proof
    fix t show "\<exists>j\<ge>t. 0 < fifo_count env_two j" by (rule exI [of _ t]) (simp add: c)
  qed
  have e: "map_option (map_sum id fst \<circ> fst)
        (fifo_loop 2 env_two 3 (0, replicate 10 0) s_configured) = Some (Inr 4)"
    by code_simp
  have g: "\<not> int 3 < 2" by simp
  note thm1 = fifo_loop_monotone_until_target [of env_two 3 "[]" s_configured 3 "[]"
      s_configured 2 0 3 "[]" s_configured]
  have a: "fifo_loop 0 env_two 2 (3, []) s_configured = Some (Inr (3, []), s_configured)"
    using thm1 [THEN conjunct2, THEN conjunct1] g by (rule mp)
  note thm2 = fifo_loop_monotone_until_target [of env_two 0 "replicate 10 0" s_configured
      0 "[]" s_configured 3 0 0 "[]" s_configured]
  have b: "\<exists>fuel' k3 buf3 s3.
         fifo_loop fuel' env_two 3 (0, replicate 10 0) s_configured
           = Some (Inr (k3, buf3), s3) \<and> 0 \<le> k3 \<and> \<not> int k3 < 3"
    using thm2 [THEN conjunct2, THEN conjunct2, THEN conjunct2] conjI [OF h1 h2] by (rule mp)
  show ?thesis by (intro conjI h1 h2 g a e b)
qed





text \<open>
  Claim C2 says that the two fixed-duration acquisitions restore \<open>standby\<close> on every exit
  path. As stated it fails: \<open>set_power_mode('standby')\<close> is the statement after the loop,
  with no \<open>try\<close>/\<open>finally\<close> around the loop. When a bus transaction raises inside the loop
  (the first poll of \<open>read_continuos_xyz\<close> is transaction 2, that of
  \<open>read_continuos_xyz_fromfifo\<close> transaction 4) the exception leaves the call with the
  device in \<open>measure\<close> mode, the last write to the power register being \<open>0x08\<close>.
\<close>

theorem standby_not_restored_when_bus_raises:
  "read_continuos_xyz 1 (env_fault_at 2) (1 / 64) s_configured
     = Some (Inl OSError,
         \<lparr>power_mode = Some ''measure'', g_range = Some 2, sampling_rate = Some 100,
            fifo_mode = Some ''bypass'', watermark_level = Some 16, cs = 0,
            bus_log = [Write 0x38 0x00, Write 0x2D 0x08], nticks = 0\<rparr>)
   \<and> read_continuos_xyz_fromfifo 1 (env_fault_at 4) (1 / 64) s_configured
     = Some (Inl OSError,
         \<lparr>power_mode = Some ''measure'', g_range = Some 2, sampling_rate = Some 100,
            fifo_mode = Some ''stream'', watermark_level = Some 16, cs = 0,
            bus_log = [Write 0x38 0x90, Write 0x2D 0x08, Write 0x38 0x00, Write 0x38 0x90],
            nticks = 1\<rparr>)"
  by code_simp

text \<open>
  Claim C2 as amended: when no bus transaction raises, every call of the two
  fixed-duration acquisitions that ends, by returning or by an exception, either ends
  before its first bus transaction with the object untouched (an attribute is not set,
  the buffer cannot be allocated), or ends with the power mode back to \<open>standby\<close>, the
  write of \<open>0x00\<close> to the power register being the last transaction. The second case
  covers the normal return and the exceptions of the diagnostics after the loop.
\<close>

theorem standby_restored_without_bus_error:
  assumes "\<forall>t. bus_fault env t = None"
  shows "(read_continuos_xyz fuel env acquisition_time s = Some (res, s')
            \<longrightarrow> s' = s \<or> power_mode s' = Some ''standby''
                          \<and> (\<exists>l. bus_log s' = l @ [Write regaddr_pwr 0]))
       \<and> (read_continuos_xyz_fromfifo fuel env acquisition_time s = Some (res', s'')
            \<longrightarrow> s'' = s \<or> power_mode s'' = Some ''standby''
                           \<and> (\<exists>l. bus_log s'' = l @ [Write regaddr_pwr 0]))"
  using read_continuos_xyz_exit [OF assms, of fuel acquisition_time s res s']
    read_continuos_xyz_fromfifo_exit [OF assms, of fuel acquisition_time s res' s'']
  by blast

theorem standby_restored_without_bus_error_witness:
  "(\<forall>t. bus_fault env_ready t = None) \<and> (\<forall>t. bus_fault env_two t = None)
   \<and> map_option (\<lambda>r. (fst r, power_mode (snd r), bus_log (snd r)))
        (read_continuos_xyz 2 env_ready (3 / 128) s_configured)
      = Some (Inr (replicate 12 0x80, [0, 10]), Some ''standby'',
              [Write 0x38 0x00, Write 0x2D 0x08, Read 2 0xB0, Read 7 0xF2, Read 2 0xB0,
               Read 7 0xF2, Write 0x2D 0x00])
   \<and> (\<exists>res s'. read_continuos_xyz 2 env_ready (3 / 128) s_configured = Some (res, s')
         \<and> (s' = s_configured \<or> power_mode s' = Some ''standby''
               \<and> (\<exists>l. bus_log s' = l @ [Write regaddr_pwr 0])))
   \<and> (\<exists>res s'. read_continuos_xyz_fromfifo 1 env_two (1 / 64) s_configured = Some (res, s')
         \<and> (s' = s_configured \<or> power_mode s' = Some ''standby''
               \<and> (\<exists>l. bus_log s' = l @ [Write regaddr_pwr 0])))"
proof -
  have nf: "\<forall>t. bus_fault env_ready t = None" by (simp add: env_ready_def)
  have nf2: "\<forall>t. bus_fault env_two t = None" by (simp add: env_two_def)
  have e: "map_option (\<lambda>r. (fst r, power_mode (snd r), bus_log (snd r)))
        (read_continuos_xyz 2 env_ready (3 / 128) s_configured)
      = Some (Inr (replicate 12 0x80, [0, 10]), Some ''standby'',
              [Write 0x38 0x00, Write 0x2D 0x08, Read 2 0xB0, Read 7 0xF2, Read 2 0xB0,
               Read 7 0xF2, Write 0x2D 0x00])"
    by code_simp
  then obtain res s' where
    run: "read_continuos_xyz 2 env_ready (3 / 128) s_configured = Some (res, s')"
    by (cases "read_continuos_xyz 2 env_ready (3 / 128) s_configured") auto
  have "map_option fst (read_continuos_xyz_fromfifo 1 env_two (1 / 64) s_configured)
          = Some (Inr ([2, 2, 2, 2, 2, 2], [0]))"
    by code_simp
  then obtain res2 s2 where
    run2: "read_continuos_xyz_fromfifo 1 env_two (1 / 64) s_configured = Some (res2, s2)"
    by (cases "read_continuos_xyz_fromfifo 1 env_two (1 / 64) s_configured") auto
  have a: "\<exists>res s'. read_continuos_xyz 2 env_ready (3 / 128) s_configured = Some (res, s')
         \<and> (s' = s_configured \<or> power_mode s' = Some ''standby''
               \<and> (\<exists>l. bus_log s' = l @ [Write regaddr_pwr 0]))"
    using standby_restored_without_bus_error [OF nf, THEN conjunct1, THEN mp, OF run] run
    by blast
  have b: "\<exists>res s'. read_continuos_xyz_fromfifo 1 env_two (1 / 64) s_configured
                       = Some (res, s')
         \<and> (s' = s_configured \<or> power_mode s' = Some ''standby''
               \<and> (\<exists>l. bus_log s' = l @ [Write regaddr_pwr 0]))"
    using standby_restored_without_bus_error [OF nf2, THEN conjunct2, THEN mp, OF run2] run2
    by blast
  show ?thesis by (intro conjI nf nf2 e a b)
qed

end
